theory Spec2Isabelle
  imports Main "HOL-Library.Word" "HOL-Library.Multiset"
begin

section \<open>Memory: arrays of 64-bit signed integers\<close>

text \<open>
  The sort works on caller-owned arrays of \<open>int64_t\<close>. An array object is named by a value
  of type \<open>'r\<close> and holds a list of 64-bit words; a C pointer is an array name together
  with an element offset, so that \<open>A_0 + n1\<close> is \<open>ptr_add A n1\<close>. Every element access
  is checked against the bounds of the array object and yields \<open>OutOfBounds\<close> outside it.
  Lengths and indices (\<open>int64_t\<close>, \<open>long\<close>) are mathematical integers: index arithmetic
  of the code stays below twice an array length, far from \<open>2^63\<close> for any array that fits
  in memory.
\<close>

type_synonym int64 = "64 word"
type_synonym 'r memory = "'r \<Rightarrow> int64 list"
type_synonym 'r ptr = "'r \<times> int"

datatype error = OutOfBounds | AssertFailed

text \<open>
  A computation returns \<open>None\<close> when it does not return (a loop that runs forever, or a
  recursion deeper than the fuel given), \<open>Some (Inl e)\<close> when it faults and
  \<open>Some (Inr v)\<close> when it returns \<open>v\<close>.
\<close>

type_synonym 'a outcome = "(error + 'a) option"

text \<open>Sequencing: the second computation runs only when the first has returned.\<close>

definition and_then :: "'a outcome \<Rightarrow> ('a \<Rightarrow> 'b outcome) \<Rightarrow> 'b outcome" where
  "and_then x f = (case x of None \<Rightarrow> None | Some (Inl e) \<Rightarrow> Some (Inl e) | Some (Inr v) \<Rightarrow> f v)"

definition ptr_add :: "'r ptr \<Rightarrow> int \<Rightarrow> 'r ptr" where
  "ptr_add p k = (fst p, snd p + k)"

definition load :: "'r memory \<Rightarrow> 'r ptr \<Rightarrow> int \<Rightarrow> error + int64" where
  "load m p i =
     (let k = snd p + i in
      if 0 \<le> k \<and> k < int (length (m (fst p))) then Inr (m (fst p) ! nat k)
      else Inl OutOfBounds)"

definition store :: "'r memory \<Rightarrow> 'r ptr \<Rightarrow> int \<Rightarrow> int64 \<Rightarrow> error + 'r memory" where
  "store m p i v =
     (let k = snd p + i in
      if 0 \<le> k \<and> k < int (length (m (fst p)))
      then Inr (m (fst p := (m (fst p)) [nat k := v]))
      else Inl OutOfBounds)"

text \<open>The \<open>n\<close> elements at \<open>p\<close>, whether they all exist, and their replacement.\<close>

definition valid :: "'r memory \<Rightarrow> 'r ptr \<Rightarrow> int \<Rightarrow> bool" where
  "valid m p n = (0 \<le> snd p \<and> 0 \<le> n \<and> snd p + n \<le> int (length (m (fst p))))"

definition slice :: "'r memory \<Rightarrow> 'r ptr \<Rightarrow> int \<Rightarrow> int64 list" where
  "slice m p n = take (nat n) (drop (nat (snd p)) (m (fst p)))"

definition overwrite :: "nat \<Rightarrow> 'a list \<Rightarrow> 'a list \<Rightarrow> 'a list" where
  "overwrite k xs old = take k old @ xs @ drop (k + length xs) old"

definition put :: "'r memory \<Rightarrow> 'r ptr \<Rightarrow> int64 list \<Rightarrow> 'r memory" where
  "put m p xs = m (fst p := overwrite (nat (snd p)) xs (m (fst p)))"

text \<open>\<open>memcpy\<close> of \<open>n\<close> elements (\<open>n * sizeof (int64_t)\<close> bytes) from \<open>src\<close> to \<open>dst\<close>.\<close>

definition memcpy :: "'r memory \<Rightarrow> 'r ptr \<Rightarrow> 'r ptr \<Rightarrow> int \<Rightarrow> error + 'r memory" where
  "memcpy m dst src n =
     (if valid m src n \<and> valid m dst n then Inr (put m dst (slice m src n))
      else Inl OutOfBounds)"

text \<open>C's integer division truncates towards zero.\<close>

definition c_div :: "int \<Rightarrow> int \<Rightarrow> int" where
  "c_div a b = sgn a * sgn b * (\<bar>a\<bar> div \<bar>b\<bar>)"

text \<open>Ascending order of \<open>int64_t\<close> values: the signed order of the words.\<close>

definition sorted64 :: "int64 list \<Rightarrow> bool" where
  "sorted64 xs = sorted_wrt (\<lambda>a b. a \<le>s b) xs"


section \<open>External collaborators\<close>

text \<open>
  Modelled from the spec: the comparator macro \<open>GB_lt_1\<close> of \<open>GB_msort_1.h\<close>, which is
  not among the sources. The spec fixes it to plain less-than over 64-bit signed
  integers: \<open>GB_lt_1 (A, i, B, j)\<close> is \<open>A [i] < B [j]\<close>.
\<close>

definition GB_lt_1 :: "'r memory \<Rightarrow> 'r ptr \<Rightarrow> int \<Rightarrow> 'r ptr \<Rightarrow> int \<Rightarrow> error + bool" where
  "GB_lt_1 m A i B j =
     (case load m A i of Inl e \<Rightarrow> Inl e
      | Inr a \<Rightarrow> (case load m B j of Inl e \<Rightarrow> Inl e | Inr b \<Rightarrow> Inr (a <s b)))"

text \<open>
  Modelled from the spec: the base-case sort \<open>GB_qsort_1a\<close>, which is not among the
  sources. The spec describes it as an in-place comparison sort of \<open>arr [0..n)\<close> that
  uses no auxiliary storage: it replaces the \<open>n\<close> elements at \<open>A\<close> by the same values in
  ascending order and touches nothing else.
\<close>

definition GB_qsort_1a :: "'r memory \<Rightarrow> 'r ptr \<Rightarrow> int \<Rightarrow> error + 'r memory" where
  "GB_qsort_1a m A n =
     (if n \<le> 0 then Inr m
      else if valid m A n then Inr (put m A (sort_key sint (slice m A n)))
      else Inl OutOfBounds)"


section \<open>GB_merge_sequential_1: merge two sorted lists via a single thread\<close>

text \<open>
  The \<open>for\<close> loop over \<open>p\<close>, \<open>pleft\<close>, \<open>pright\<close>; it returns the memory and the three
  counters at loop exit.
\<close>

function GB_merge_sequential_1_loop ::
  "'r memory \<Rightarrow> 'r ptr \<Rightarrow> 'r ptr \<Rightarrow> int \<Rightarrow> 'r ptr \<Rightarrow> int \<Rightarrow> int \<Rightarrow> int \<Rightarrow> int
   \<Rightarrow> error + ('r memory \<times> int \<times> int \<times> int)" where
  "GB_merge_sequential_1_loop m S Left_0 nleft Right_0 nright p pleft pright =
     (if pleft < nleft \<and> pright < nright then
        (case GB_lt_1 m Left_0 pleft Right_0 pright of
           Inl e \<Rightarrow> Inl e
         | Inr True \<Rightarrow>
             (case load m Left_0 pleft of
                Inl e \<Rightarrow> Inl e
              | Inr v \<Rightarrow>
                  (case store m S p v of
                     Inl e \<Rightarrow> Inl e
                   | Inr m' \<Rightarrow>
                       GB_merge_sequential_1_loop m' S Left_0 nleft Right_0 nright
                         (p + 1) (pleft + 1) pright))
         | Inr False \<Rightarrow>
             (case load m Right_0 pright of
                Inl e \<Rightarrow> Inl e
              | Inr v \<Rightarrow>
                  (case store m S p v of
                     Inl e \<Rightarrow> Inl e
                   | Inr m' \<Rightarrow>
                       GB_merge_sequential_1_loop m' S Left_0 nleft Right_0 nright
                         (p + 1) pleft (pright + 1))))
      else Inr (m, p, pleft, pright))"
  by pat_completeness auto
termination
  by (relation "measure (\<lambda>(m, S, Left_0, nleft, Right_0, nright, p, pleft, pright).
                   nat (nleft - pleft) + nat (nright - pright))") auto

declare GB_merge_sequential_1_loop.simps [simp del]

text \<open>The statements after the loop: copy the remaining list into \<open>S\<close>.\<close>

definition GB_merge_sequential_1_rest ::
  "'r memory \<Rightarrow> 'r ptr \<Rightarrow> 'r ptr \<Rightarrow> int \<Rightarrow> 'r ptr \<Rightarrow> int \<Rightarrow> int \<Rightarrow> int \<Rightarrow> int
   \<Rightarrow> error + 'r memory" where
  "GB_merge_sequential_1_rest m S Left_0 nleft Right_0 nright p pleft pright =
     (if pleft < nleft
      then memcpy m (ptr_add S p) (ptr_add Left_0 pleft) (nleft - pleft)
      else if pright < nright
      then memcpy m (ptr_add S p) (ptr_add Right_0 pright) (nright - pright)
      else Inr m)"

definition GB_merge_sequential_1 ::
  "'r memory \<Rightarrow> 'r ptr \<Rightarrow> 'r ptr \<Rightarrow> int \<Rightarrow> 'r ptr \<Rightarrow> int \<Rightarrow> error + 'r memory" where
  "GB_merge_sequential_1 m S Left_0 nleft Right_0 nright =
     (case GB_merge_sequential_1_loop m S Left_0 nleft Right_0 nright 0 0 0 of
        Inl e \<Rightarrow> Inl e
      | Inr (m', p, pleft, pright) \<Rightarrow>
          GB_merge_sequential_1_rest m' S Left_0 nleft Right_0 nright p pleft pright)"


section \<open>GB_merge_parallel_1: parallel merge\<close>

text \<open>
  The binary search of \<open>Smaller [0..nsmaller-1]\<close> for the pivot: the \<open>while\<close> loop on
  \<open>pleft\<close> and \<open>pright\<close>. The pivot is the local one-element array \<open>Pivot_0\<close>, here its
  value.
\<close>

partial_function (option) GB_pivot_search ::
  "'r memory \<Rightarrow> 'r ptr \<Rightarrow> int64 \<Rightarrow> int \<Rightarrow> int \<Rightarrow> (int \<times> int) outcome" where
  "GB_pivot_search m Smaller_0 Pivot_0 pleft pright =
     (if pleft < pright then
        (let pmiddle = c_div (pleft + pright) 2 in
         case load m Smaller_0 pmiddle of
           Inl e \<Rightarrow> Some (Inl e)
         | Inr v \<Rightarrow>
             if v <s Pivot_0
             then GB_pivot_search m Smaller_0 Pivot_0 (pmiddle + 1) pright
             else GB_pivot_search m Smaller_0 Pivot_0 pleft pmiddle)
      else Some (Inr (pleft, pright)))"

declare GB_pivot_search.simps [code]

text \<open>
  The statements after the loop: the \<open>ASSERT\<close>, the flag \<open>found\<close> (its second conjunct
  is read only when \<open>pleft == pright\<close>), and the modification of \<open>pleft\<close> and \<open>pright\<close>.
  A failing \<open>ASSERT\<close> is the error \<open>AssertFailed\<close>.
\<close>

definition GB_pivot_adjust ::
  "'r memory \<Rightarrow> 'r ptr \<Rightarrow> int64 \<Rightarrow> int \<Rightarrow> int \<Rightarrow> error + (int \<times> int)" where
  "GB_pivot_adjust m Smaller_0 Pivot_0 pleft pright =
     (if \<not> (pleft = pright \<or> pleft = pright + 1) then Inl AssertFailed
      else
        (case (if pleft = pright
               then (case load m Smaller_0 pleft of
                       Inl e \<Rightarrow> Inl e | Inr v \<Rightarrow> Inr (v = Pivot_0))
               else Inr False) of
           Inl e \<Rightarrow> Inl e
         | Inr found \<Rightarrow>
             if \<not> found \<and> pleft = pright then
               (case load m Smaller_0 pleft of
                  Inl e \<Rightarrow> Inl e
                | Inr v \<Rightarrow>
                    if v <s Pivot_0 then Inr (pleft + 1, pright)
                    else Inr (pleft, pright + 1))
             else Inr (pleft, pright)))"

text \<open>
  The first half of \<open>GB_merge_parallel_1\<close>: split the bigger input in half and find where
  the pivot appears in the smaller list. It returns \<open>nhalf\<close> and the final \<open>pleft\<close>.
\<close>

definition GB_merge_parallel_1_split ::
  "'r memory \<Rightarrow> 'r ptr \<Rightarrow> int \<Rightarrow> 'r ptr \<Rightarrow> int \<Rightarrow> (int \<times> int) outcome" where
  "GB_merge_parallel_1_split m Bigger_0 nbigger Smaller_0 nsmaller =
     (let nhalf = c_div nbigger 2 in
      case load m Bigger_0 nhalf of
        Inl e \<Rightarrow> Some (Inl e)
      | Inr Pivot_0 \<Rightarrow>
          (case GB_pivot_search m Smaller_0 Pivot_0 0 (nsmaller - 1) of
             None \<Rightarrow> None
           | Some (Inl e) \<Rightarrow> Some (Inl e)
           | Some (Inr (pleft, pright)) \<Rightarrow>
               (case GB_pivot_adjust m Smaller_0 Pivot_0 pleft pright of
                  Inl e \<Rightarrow> Some (Inl e)
                | Inr (pleft', pright') \<Rightarrow> Some (Inr (nhalf, pleft')))))"

text \<open>
  The second half merges each part, through \<open>GB_merge_select_1\<close>. The two tasks write
  disjoint parts of \<open>S\<close> and read only the inputs, so they are run one after the other,
  which is also what \<open>GB_TASK\<close> does without OpenMP. The threshold \<open>GB_BASECASE\<close> is
  defined in a header that is not among the sources: it is the parameter \<open>basecase\<close>.
  Each call of \<open>GB_merge_parallel_1\<close> uses one unit of fuel.
\<close>

fun GB_merge_select_1 ::
    "nat \<Rightarrow> int \<Rightarrow> 'r memory \<Rightarrow> 'r ptr \<Rightarrow> 'r ptr \<Rightarrow> int \<Rightarrow> 'r ptr \<Rightarrow> int \<Rightarrow> 'r memory outcome"
  and GB_merge_parallel_1 ::
    "nat \<Rightarrow> int \<Rightarrow> 'r memory \<Rightarrow> 'r ptr \<Rightarrow> 'r ptr \<Rightarrow> int \<Rightarrow> 'r ptr \<Rightarrow> int \<Rightarrow> 'r memory outcome"
  where
  "GB_merge_select_1 fuel basecase m S Left_0 nleft Right_0 nright =
     (if nleft + nright < basecase
      then Some (GB_merge_sequential_1 m S Left_0 nleft Right_0 nright)
      else if nleft \<ge> nright
      then GB_merge_parallel_1 fuel basecase m S Left_0 nleft Right_0 nright
      else GB_merge_parallel_1 fuel basecase m S Right_0 nright Left_0 nleft)"
| "GB_merge_parallel_1 0 basecase m S Bigger_0 nbigger Smaller_0 nsmaller = None"
| "GB_merge_parallel_1 (Suc fuel) basecase m S Bigger_0 nbigger Smaller_0 nsmaller =
     and_then (GB_merge_parallel_1_split m Bigger_0 nbigger Smaller_0 nsmaller)
       (\<lambda>(nhalf, pleft).
     and_then (GB_merge_select_1 fuel basecase m S Bigger_0 nhalf Smaller_0 pleft)
       (\<lambda>m'.
     GB_merge_select_1 fuel basecase m'
       (ptr_add (ptr_add S nhalf) pleft)
       (ptr_add Bigger_0 nhalf) (nbigger - nhalf)
       (ptr_add Smaller_0 pleft) (nsmaller - pleft)))"

declare GB_merge_select_1.simps [simp del]


section \<open>GB_mergesort_1: parallel merge sort of a length-n array\<close>

text \<open>The split of \<open>n\<close> into two halves and four quarters.\<close>

definition GB_quarters :: "int \<Rightarrow> int \<times> int \<times> int \<times> int \<times> int \<times> int" where
  "GB_quarters n =
     (let n12 = c_div n 2; n34 = n - n12;
          n1 = c_div n12 2; n2 = n12 - n1;
          n3 = c_div n34 2; n4 = n34 - n3
      in (n12, n34, n1, n2, n3, n4))"

text \<open>
  The recursive branch of \<open>GB_mergesort_1\<close>; \<open>sort_task\<close> stands for the recursive call and
  \<open>merge_task\<close> for \<open>GB_merge_select_1\<close>. The tasks of one group work on disjoint quarters and
  are run in program order.
\<close>

definition GB_mergesort_1_quarters ::
  "('r memory \<Rightarrow> 'r ptr \<Rightarrow> 'r ptr \<Rightarrow> int \<Rightarrow> 'r memory outcome) \<Rightarrow>
   ('r memory \<Rightarrow> 'r ptr \<Rightarrow> 'r ptr \<Rightarrow> int \<Rightarrow> 'r ptr \<Rightarrow> int \<Rightarrow> 'r memory outcome) \<Rightarrow>
   'r memory \<Rightarrow> 'r ptr \<Rightarrow> 'r ptr \<Rightarrow> int \<Rightarrow> 'r memory outcome" where
  "GB_mergesort_1_quarters sort_task merge_task m A W n =
     (case GB_quarters n of (n12, n34, n1, n2, n3, n4) \<Rightarrow>
      let n123 = n12 + n3 in
      and_then (sort_task m A W n1) (\<lambda>m1.
      and_then (sort_task m1 (ptr_add A n1) (ptr_add W n1) n2) (\<lambda>m2.
      and_then (sort_task m2 (ptr_add A n12) (ptr_add W n12) n3) (\<lambda>m3.
      and_then (sort_task m3 (ptr_add A n123) (ptr_add W n123) n4) (\<lambda>m4.
      and_then (merge_task m4 W A n1 (ptr_add A n1) n2) (\<lambda>m5.
      and_then (merge_task m5 (ptr_add W n12) (ptr_add A n12) n3 (ptr_add A n123) n4) (\<lambda>m6.
      merge_task m6 A W n12 (ptr_add W n12) n34)))))))"

text \<open>
  Each call of \<open>GB_mergesort_1\<close> uses one unit of fuel and hands the rest to its recursive
  calls and to the merges.
\<close>

fun GB_mergesort_1 ::
  "nat \<Rightarrow> int \<Rightarrow> 'r memory \<Rightarrow> 'r ptr \<Rightarrow> 'r ptr \<Rightarrow> int \<Rightarrow> 'r memory outcome" where
  "GB_mergesort_1 0 basecase m A W n = None"
| "GB_mergesort_1 (Suc fuel) basecase m A W n =
     (if n \<le> basecase then Some (GB_qsort_1a m A n)
      else GB_mergesort_1_quarters (GB_mergesort_1 fuel basecase)
             (GB_merge_select_1 fuel basecase) m A W n)"


section \<open>GB_msort_1: gateway for parallel merge sort\<close>

text \<open>
  The macros \<open>GB_MSORT_NTHREADS\<close> and \<open>GB_OPENMP_GET_NUM_THREADS\<close> belong to headers that
  are not among the sources: the first is the parameter \<open>msort_nthreads\<close>, a function of
  the requested thread count, the second the parameter \<open>omp_num_threads\<close>.
  \<open>GB_TASK_MASTER\<close> opens a parallel region and changes no data.
\<close>

definition GB_msort_1 ::
  "nat \<Rightarrow> int \<Rightarrow> (int \<Rightarrow> int) \<Rightarrow> int \<Rightarrow> 'r memory \<Rightarrow> 'r ptr \<Rightarrow> 'r ptr \<Rightarrow> int \<Rightarrow> int
   \<Rightarrow> 'r memory outcome" where
  "GB_msort_1 fuel basecase msort_nthreads omp_num_threads m A W n nthreads =
     (let nthreads' = msort_nthreads nthreads in
      if nthreads' > 1 then
        (if omp_num_threads > 1
         then GB_mergesort_1 fuel basecase m A W n
         else GB_mergesort_1 fuel basecase m A W n)
      else Some (GB_qsort_1a m A n))"


section \<open>Reference functions\<close>

text \<open>
  The two-way merge of two lists, with the tie-break of \<open>GB_merge_sequential_1\<close>: the
  element of the right list is taken unless the left one is strictly less.
\<close>

fun merge64 :: "int64 list \<Rightarrow> int64 list \<Rightarrow> int64 list" where
  "merge64 [] ys = ys"
| "merge64 xs [] = xs"
| "merge64 (x # xs) (y # ys) =
     (if x <s y then x # merge64 xs (y # ys) else y # merge64 (x # xs) ys)"

text \<open>The ascending arrangement of a list of \<open>int64_t\<close> values.\<close>

definition sort64 :: "int64 list \<Rightarrow> int64 list" where
  "sort64 xs = sort_key sint xs"


text \<open>
  What a merge may assume of its arguments: the output \<open>S\<close> lies in another array than
  the two inputs (the pointers are \<open>GB_RESTRICT\<close>), the three ranges lie inside their
  arrays, and the two inputs are sorted.
\<close>

definition mergeable ::
  "'r memory \<Rightarrow> 'r ptr \<Rightarrow> 'r ptr \<Rightarrow> int \<Rightarrow> 'r ptr \<Rightarrow> int \<Rightarrow> bool" where
  "mergeable m S Left_0 nleft Right_0 nright =
     (fst S \<noteq> fst Left_0 \<and> fst S \<noteq> fst Right_0 \<and>
      valid m Left_0 nleft \<and> valid m Right_0 nright \<and> valid m S (nleft + nright) \<and>
      sorted64 (slice m Left_0 nleft) \<and> sorted64 (slice m Right_0 nright))"


section \<open>Basic facts about the memory model\<close>

lemma c_div_nonneg: "0 \<le> a \<Longrightarrow> c_div a 2 = a div 2"
  by (cases "a = 0") (simp_all add: c_div_def)

lemma GB_quarters_nonneg:
  "0 \<le> n \<Longrightarrow> GB_quarters n =
     (n div 2, n - n div 2, n div 2 div 2, n div 2 - n div 2 div 2,
      (n - n div 2) div 2, n - n div 2 - (n - n div 2) div 2)"
  by (simp add: GB_quarters_def Let_def c_div_nonneg)

lemma load_slice:
  assumes "valid m p n" and "0 \<le> i" and "i < n"
  shows "load m p i = Inr (slice m p n ! nat i)"
proof -
  from assms have b: "0 \<le> snd p" "snd p + n \<le> int (length (m (fst p)))"
    by (simp_all add: valid_def)
  with assms(2,3) have 1: "nat (snd p) + nat i < length (m (fst p))" by linarith
  from b assms(2) have 2: "nat (snd p + i) = nat (snd p) + nat i" by (simp add: nat_add_distrib)
  from assms(2,3) have 3: "nat i < nat n" by linarith
  from b assms(2,3) have 4: "0 \<le> snd p + i" "snd p + i < int (length (m (fst p)))" by linarith+
  from 1 have 5: "nat (snd p) \<le> length (m (fst p))" by linarith
  show ?thesis
    using 1 3 4 5 by (simp add: load_def slice_def Let_def 2)
qed

lemma length_slice: 
  assumes "valid m p n" shows "length (slice m p n) = nat n"
proof -
  from assms have b: "0 \<le> snd p" "0 \<le> n" "snd p + n \<le> int (length (m (fst p)))"
    by (simp_all add: valid_def)
  then have "nat n \<le> length (m (fst p)) - nat (snd p)" by linarith
  then show ?thesis by (simp add: slice_def)
qed

lemma sorted64_nth:
  "sorted64 xs \<Longrightarrow> i \<le> j \<Longrightarrow> j < length xs \<Longrightarrow> xs ! i \<le>s xs ! j"
  by (cases "i = j") (simp_all add: sorted64_def sorted_wrt_nth_less)

lemma half_bounds: "2 * ((x::int) div 2) \<le> x \<and> x \<le> 2 * (x div 2) + 1"
  by linarith


section \<open>The partition into quarters\<close>

text \<open>
  Claim C5. For every \<open>n \<ge> 0\<close>, the sizes computed by the halving rule of
  \<open>GB_mergesort_1\<close> (\<open>n12 = n/2\<close>, \<open>n34 = n - n12\<close>, \<open>n1 = n12/2\<close>, \<open>n2 = n12 - n1\<close>,
  \<open>n3 = n34/2\<close>, \<open>n4 = n34 - n3\<close>) satisfy \<open>n1 + n2 + n3 + n4 = n\<close>, and each quarter is
  within 1 of \<open>n/4\<close>: of the integer quotient, and also of the exact quotient, since
  \<open>n - 3 \<le> 4 * q \<le> n + 3\<close>. The sizes are the value of \<open>GB_quarters\<close>, a function of
  \<open>n\<close> alone: no array element is read to compute them.
\<close>

theorem GB_quarters_law:
  assumes "0 \<le> n" and "GB_quarters n = (n12, n34, n1, n2, n3, n4)"
  shows "n1 + n2 + n3 + n4 = n \<and> n12 = n1 + n2 \<and> n34 = n3 + n4 \<and>
         (\<forall>q \<in> {n1, n2, n3, n4}. \<bar>q - c_div n 4\<bar> \<le> 1 \<and> n - 3 \<le> 4 * q \<and> 4 * q \<le> n + 3)"
proof -
  have c: "c_div n 4 = n div 4"
    using assms(1) by (cases "n = 0") (simp_all add: c_div_def)
  from assms have "(n12, n34, n1, n2, n3, n4) = (n div 2, n - n div 2, n div 2 div 2, n div 2 - n div 2 div 2,
      (n - n div 2) div 2, n - n div 2 - (n - n div 2) div 2)"
    by (simp only: GB_quarters_nonneg)
  then have e: "n12 = n div 2" "n34 = n - n12" "n1 = n12 div 2"
    "n2 = n12 - n1" "n3 = n34 div 2" "n4 = n34 - n3"
    by (simp_all only: prod.inject)
  have h: "2 * n12 \<le> n \<and> n \<le> 2 * n12 + 1" "2 * n1 \<le> n12 \<and> n12 \<le> 2 * n1 + 1"
    "2 * n3 \<le> n34 \<and> n34 \<le> 2 * n3 + 1"
    unfolding e(1) e(3) e(5) by (rule half_bounds)+
  have d: "4 * (n div 4) \<le> n \<and> n \<le> 4 * (n div 4) + 3" by linarith
  have "\<bar>q - n div 4\<bar> \<le> 1 \<and> n - 3 \<le> 4 * q \<and> 4 * q \<le> n + 3"
    if "q = n1 \<or> q = n2 \<or> q = n3 \<or> q = n4" for q
    using that h d e(2,4,6) by linarith
  moreover have "n1 + n2 + n3 + n4 = n" "n12 = n1 + n2" "n34 = n3 + n4"
    using e(2,4,6) by linarith+
  ultimately show ?thesis unfolding c by simp
qed

theorem GB_quarters_law_witness:
  "(0::int) \<le> 7 \<and> GB_quarters 7 = (3, 4, 1, 2, 2, 2) \<and> (1::int) + 2 + 2 + 2 = 7 \<and>
   \<bar>1 - c_div 7 4\<bar> \<le> 1 \<and> \<bar>2 - c_div 7 4\<bar> \<le> 1 \<and>
   (7::int) - 3 \<le> 4 * 1 \<and> (4::int) * 2 \<le> 7 + 3"
proof -
  have g: "GB_quarters 7 = (3, 4, 1, 2, 2, 2)"
    by (simp add: GB_quarters_def c_div_def)
  have "(0::int) \<le> 7" by simp
  from GB_quarters_law [OF this g] g show ?thesis by simp
qed

section \<open>The pivot search\<close>

lemma GB_pivot_search_run:
  assumes "valid m Sm ns" and "0 \<le> pl" and "pl \<le> pr" and "pr < ns"
  shows "\<exists>k. GB_pivot_search m Sm P pl pr = Some (Inr (k, k)) \<and> pl \<le> k \<and> k \<le> pr \<and>
           (sorted64 (slice m Sm ns) \<longrightarrow>
              (\<forall>i. pl \<le> i \<and> i < k \<longrightarrow> slice m Sm ns ! nat i <s P) \<and>
              (\<forall>i. k < i \<and> i \<le> pr \<longrightarrow> \<not> slice m Sm ns ! nat i <s P))"
  using assms(2-4)
proof (induction "nat (pr - pl)" arbitrary: pl pr rule: less_induct)
  case less
  let ?xs = "slice m Sm ns"
  show ?case
  proof (cases "pl < pr")
    case False
    with less.prems have "pl = pr" by simp
    then show ?thesis by (subst GB_pivot_search.simps) auto
  next
    case True
    define mid where "mid = (pl + pr) div 2"
    have mid: "pl \<le> mid" "mid < pr" "c_div (pl + pr) 2 = mid"
      using True less.prems by (auto simp add: mid_def c_div_nonneg)
    have ld: "load m Sm mid = Inr (?xs ! nat mid)"
      using mid less.prems assms(1) by (intro load_slice) auto
    have len: "length ?xs = nat ns" using assms(1) by (rule length_slice)
    show ?thesis
    proof (cases "?xs ! nat mid <s P")
      case lt: True
      have unf: "GB_pivot_search m Sm P pl pr = GB_pivot_search m Sm P (mid + 1) pr"
        using True mid ld lt by (subst GB_pivot_search.simps) (simp add: Let_def)
      from less.hyps [of pr "mid + 1"] mid less.prems
      obtain k where k: "GB_pivot_search m Sm P (mid + 1) pr = Some (Inr (k, k))"
        "mid + 1 \<le> k" "k \<le> pr"
        "sorted64 ?xs \<Longrightarrow> (\<forall>i. mid + 1 \<le> i \<and> i < k \<longrightarrow> ?xs ! nat i <s P) \<and>
              (\<forall>i. k < i \<and> i \<le> pr \<longrightarrow> \<not> ?xs ! nat i <s P)"
        by fastforce
      have low: "?xs ! nat i <s P" if "sorted64 ?xs" "pl \<le> i" "i \<le> mid" for i
      proof -
        have "?xs ! nat i \<le>s ?xs ! nat mid"
          using that mid less.prems len by (intro sorted64_nth) auto
        with lt show ?thesis by (simp add: word_sle_eq word_sless_alt)
      qed
      have "(\<forall>i. pl \<le> i \<and> i < k \<longrightarrow> ?xs ! nat i <s P) \<and>
              (\<forall>i. k < i \<and> i \<le> pr \<longrightarrow> \<not> ?xs ! nat i <s P)" if s: "sorted64 ?xs"
      proof (intro conjI allI impI)
        fix i assume "pl \<le> i \<and> i < k"
        then show "?xs ! nat i <s P"
          using low [OF s, of i] k(4) [OF s] by (cases "i \<le> mid") auto
      next
        fix i assume "k < i \<and> i \<le> pr"
        then show "\<not> ?xs ! nat i <s P" using k(4) [OF s] by auto
      qed
      with k mid unf show ?thesis by auto
    next
      case ge: False
      have unf: "GB_pivot_search m Sm P pl pr = GB_pivot_search m Sm P pl mid"
        using True mid ld ge by (subst GB_pivot_search.simps) (simp add: Let_def)
      from less.hyps [of mid pl] mid less.prems
      obtain k where k: "GB_pivot_search m Sm P pl mid = Some (Inr (k, k))"
        "pl \<le> k" "k \<le> mid"
        "sorted64 ?xs \<Longrightarrow> (\<forall>i. pl \<le> i \<and> i < k \<longrightarrow> ?xs ! nat i <s P) \<and>
              (\<forall>i. k < i \<and> i \<le> mid \<longrightarrow> \<not> ?xs ! nat i <s P)"
        by fastforce
      have high: "\<not> ?xs ! nat i <s P" if "sorted64 ?xs" "mid \<le> i" "i \<le> pr" for i
      proof -
        have "?xs ! nat mid \<le>s ?xs ! nat i"
          using that mid less.prems len by (intro sorted64_nth) auto
        with ge show ?thesis by (simp add: word_sle_eq word_sless_alt)
      qed
      have "(\<forall>i. pl \<le> i \<and> i < k \<longrightarrow> ?xs ! nat i <s P) \<and>
              (\<forall>i. k < i \<and> i \<le> pr \<longrightarrow> \<not> ?xs ! nat i <s P)" if s: "sorted64 ?xs"
      proof (intro conjI allI impI)
        fix i assume "pl \<le> i \<and> i < k"
        then show "?xs ! nat i <s P" using k(4) [OF s] by auto
      next
        fix i assume "k < i \<and> i \<le> pr"
        then show "\<not> ?xs ! nat i <s P"
          using high [OF s, of i] k(4) [OF s] by (cases "mid \<le> i") auto
      qed
      with k mid unf show ?thesis by auto
    qed
  qed
qed

lemma GB_pivot_search_empty:
  "ns \<le> 0 \<Longrightarrow> GB_pivot_search m Sm P 0 (ns - 1) = Some (Inr (0, ns - 1))"
  by (subst GB_pivot_search.simps) simp

lemma not_sless_iff: "(\<not> a <s b) = (b \<le>s a)"
  by (auto simp add: word_sle_eq word_sless_alt)

lemma GB_pivot_split_run:
  assumes "valid m Sm ns"
  shows "\<exists>pl pr k pr'. GB_pivot_search m Sm P 0 (ns - 1) = Some (Inr (pl, pr)) \<and>
           (pl = pr \<or> pl = pr + 1) \<and>
           GB_pivot_adjust m Sm P pl pr = Inr (k, pr') \<and> 0 \<le> k \<and> k \<le> ns \<and>
           (ns = 0 \<longrightarrow> pl = 0 \<and> pr = - 1) \<and>
           (sorted64 (slice m Sm ns) \<longrightarrow>
              (\<forall>i. 0 \<le> i \<and> i < k \<longrightarrow> slice m Sm ns ! nat i <s P) \<and>
              (\<forall>i. k \<le> i \<and> i < ns \<longrightarrow> P \<le>s slice m Sm ns ! nat i))"
proof (cases "ns = 0")
  case True
  then have 1: "GB_pivot_search m Sm P 0 (ns - 1) = Some (Inr (0, - 1))"
    using GB_pivot_search_empty [of ns m Sm P] by simp
  have 2: "GB_pivot_adjust m Sm P 0 (- 1) = Inr (0, - 1)"
    by (simp add: GB_pivot_adjust_def)
  show ?thesis
    apply (rule exI [of _ 0], rule exI [of _ "- 1"], rule exI [of _ 0], rule exI [of _ "- 1"])
    using True 1 2 by auto
next
  case False
  let ?xs = "slice m Sm ns"
  from False assms have pos: "0 < ns" by (simp add: valid_def)
  then have "(0::int) \<le> ns - 1" "ns - 1 < ns" by simp_all
  from GB_pivot_search_run [OF assms _ this, of P]
  obtain k where k: "GB_pivot_search m Sm P 0 (ns - 1) = Some (Inr (k, k))"
    "0 \<le> k" "k < ns"
    and inv: "sorted64 ?xs \<longrightarrow> (\<forall>i. 0 \<le> i \<and> i < k \<longrightarrow> ?xs ! nat i <s P) \<and>
        (\<forall>i. k < i \<and> i \<le> ns - 1 \<longrightarrow> \<not> ?xs ! nat i <s P)"
    by fastforce
  have ld: "load m Sm k = Inr (?xs ! nat k)"
    using assms k(2,3) by (rule load_slice)
  show ?thesis
  proof (cases "?xs ! nat k <s P")
    case True
    then have ne: "?xs ! nat k \<noteq> P" by (auto simp add: word_sless_alt)
    have adj: "GB_pivot_adjust m Sm P k k = Inr (k + 1, k)"
      using True ne ld by (simp add: GB_pivot_adjust_def)
    have "(\<forall>i. 0 \<le> i \<and> i < k + 1 \<longrightarrow> ?xs ! nat i <s P) \<and>
          (\<forall>i. k + 1 \<le> i \<and> i < ns \<longrightarrow> P \<le>s ?xs ! nat i)" if s: "sorted64 ?xs"
    proof (intro conjI allI impI)
      fix i assume "0 \<le> i \<and> i < k + 1"
      then show "?xs ! nat i <s P" using inv s True by (cases "i = k") auto
    next
      fix i assume "k + 1 \<le> i \<and> i < ns"
      then have "\<not> ?xs ! nat i <s P" using inv s by auto
      then show "P \<le>s ?xs ! nat i" by (simp add: not_sless_iff)
    qed
    then have post: "sorted64 ?xs \<longrightarrow> (\<forall>i. 0 \<le> i \<and> i < k + 1 \<longrightarrow> ?xs ! nat i <s P) \<and>
          (\<forall>i. k + 1 \<le> i \<and> i < ns \<longrightarrow> P \<le>s ?xs ! nat i)" by blast
    show ?thesis
      apply (rule exI [of _ k], rule exI [of _ k], rule exI [of _ "k + 1"], rule exI [of _ k])
      using k adj post by simp
  next
    case False
    have "\<exists>pr'. GB_pivot_adjust m Sm P k k = Inr (k, pr')"
      using False ld by (simp add: GB_pivot_adjust_def)
    then obtain pr' where adj: "GB_pivot_adjust m Sm P k k = Inr (k, pr')" ..
    have "(\<forall>i. 0 \<le> i \<and> i < k \<longrightarrow> ?xs ! nat i <s P) \<and>
          (\<forall>i. k \<le> i \<and> i < ns \<longrightarrow> P \<le>s ?xs ! nat i)" if s: "sorted64 ?xs"
    proof (intro conjI allI impI)
      fix i assume "0 \<le> i \<and> i < k"
      then show "?xs ! nat i <s P" using inv s by auto
    next
      fix i assume "k \<le> i \<and> i < ns"
      then have "\<not> ?xs ! nat i <s P" using inv s False by (cases "i = k") auto
      then show "P \<le>s ?xs ! nat i" by (simp add: not_sless_iff)
    qed
    then have post: "sorted64 ?xs \<longrightarrow> (\<forall>i. 0 \<le> i \<and> i < k \<longrightarrow> ?xs ! nat i <s P) \<and>
          (\<forall>i. k \<le> i \<and> i < ns \<longrightarrow> P \<le>s ?xs ! nat i)" by blast
    show ?thesis
      apply (rule exI [of _ k], rule exI [of _ k], rule exI [of _ k], rule exI [of _ pr'])
      using k adj post by simp
  qed
qed

text \<open>
  Claim C4. For every run \<open>Smaller [0..nsmaller)\<close> that lies inside its array, with
  \<open>nsmaller \<ge> 0\<close>, and every pivot, the binary-search loop of \<open>GB_merge_parallel_1\<close>
  started at \<open>pleft = 0\<close>, \<open>pright = nsmaller - 1\<close> returns (it is not \<open>None\<close>, and it reads
  no element out of bounds), and at loop exit \<open>pleft = pright\<close> or \<open>pleft = pright + 1\<close>,
  so the \<open>ASSERT\<close> does not fail; for the empty run the loop exits with \<open>pleft = 0\<close> and
  \<open>pright = -1\<close>. The run need not be sorted for this.
\<close>

theorem GB_pivot_search_terminates:
  assumes "valid m Smaller_0 nsmaller"
  shows "\<exists>pleft pright.
           GB_pivot_search m Smaller_0 Pivot_0 0 (nsmaller - 1) = Some (Inr (pleft, pright)) \<and>
           (pleft = pright \<or> pleft = pright + 1) \<and>
           (nsmaller = 0 \<longrightarrow> pleft = 0 \<and> pright = - 1) \<and>
           GB_pivot_adjust m Smaller_0 Pivot_0 pleft pright \<noteq> Inl AssertFailed"
proof -
  from GB_pivot_split_run [OF assms, of Pivot_0]
  obtain pl pr k pr' where
    "GB_pivot_search m Smaller_0 Pivot_0 0 (nsmaller - 1) = Some (Inr (pl, pr))"
    "pl = pr \<or> pl = pr + 1" "GB_pivot_adjust m Smaller_0 Pivot_0 pl pr = Inr (k, pr')"
    "nsmaller = 0 \<longrightarrow> pl = 0 \<and> pr = - 1"
    by blast
  then show ?thesis by simp
qed

theorem GB_pivot_search_terminates_witness:
  "valid (\<lambda>r::nat. [- 4, 2, 9]) (0, 0) 3 \<and>
   GB_pivot_search (\<lambda>r::nat. [- 4, 2, 9]) (0, 0) 5 0 (3 - 1) = Some (Inr (2, 2)) \<and>
   GB_pivot_adjust (\<lambda>r::nat. [- 4, 2, 9]) (0, 0) 5 2 2 \<noteq> Inl AssertFailed \<and>
   valid (\<lambda>r::nat. []) (0, 0) 0 \<and>
   GB_pivot_search (\<lambda>r::nat. []) (0, 0) 5 0 (0 - 1) = Some (Inr (0, - 1)) \<and>
   GB_pivot_adjust (\<lambda>r::nat. []) (0, 0) 5 0 (- 1) \<noteq> Inl AssertFailed"
proof -
  have v: "valid (\<lambda>r::nat. [- 4, 2, 9]) (0, 0) 3" "valid (\<lambda>r::nat. []) (0, 0) 0"
    by (simp_all add: valid_def)
  have s: "GB_pivot_search (\<lambda>r::nat. [- 4, 2, 9]) (0, 0) 5 0 (3 - 1) = Some (Inr (2, 2))"
    "GB_pivot_search (\<lambda>r::nat. []) (0, 0) 5 0 (0 - 1) = Some (Inr (0, - 1))"
    by code_simp+
  from GB_pivot_search_terminates [OF v(1), of 5] GB_pivot_search_terminates [OF v(2), of 5] v s
  show ?thesis by simp
qed

text \<open>
  Claim C3. For every sorted run \<open>Smaller [0..nsmaller)\<close> and pivot \<open>p\<close>, the binary search
  followed by the adjustment step of \<open>GB_merge_parallel_1\<close> yields a split index \<open>k\<close> (the
  final \<open>pleft\<close>) with \<open>Smaller [i] < p\<close> for all \<open>i < k\<close> and \<open>Smaller [i] \<ge> p\<close> for all
  \<open>i \<ge> k\<close>. This holds in particular when no element of the run equals the pivot, the
  case the claim is about; the proof does not need that restriction.
\<close>

theorem GB_pivot_split_correct:
  assumes "valid m Smaller_0 nsmaller" and "sorted64 (slice m Smaller_0 nsmaller)"
  shows "\<exists>pleft pright k pright'.
           GB_pivot_search m Smaller_0 Pivot_0 0 (nsmaller - 1) = Some (Inr (pleft, pright)) \<and>
           GB_pivot_adjust m Smaller_0 Pivot_0 pleft pright = Inr (k, pright') \<and>
           0 \<le> k \<and> k \<le> nsmaller \<and>
           (\<forall>i. 0 \<le> i \<and> i < k \<longrightarrow> slice m Smaller_0 nsmaller ! nat i <s Pivot_0) \<and>
           (\<forall>i. k \<le> i \<and> i < nsmaller \<longrightarrow> Pivot_0 \<le>s slice m Smaller_0 nsmaller ! nat i)"
  using GB_pivot_split_run [OF assms(1), of Pivot_0] assms(2) by blast

theorem GB_pivot_split_correct_witness:
  "valid (\<lambda>r::nat. [- 4, 2, 5, 5, 9]) (0, 0) 5 \<and>
   sorted64 (slice (\<lambda>r::nat. [- 4, 2, 5, 5, 9]) (0, 0) 5) \<and>
   GB_pivot_search (\<lambda>r::nat. [- 4, 2, 5, 5, 9]) (0, 0) 5 0 (5 - 1) = Some (Inr (2, 2)) \<and>
   GB_pivot_adjust (\<lambda>r::nat. [- 4, 2, 5, 5, 9]) (0, 0) 5 2 2 = Inr (2, 2) \<and>
   slice (\<lambda>r::nat. [- 4, 2, 5, 5, 9]) (0, 0) 5 ! nat 0 <s 5 \<and>
   slice (\<lambda>r::nat. [- 4, 2, 5, 5, 9]) (0, 0) 5 ! nat 1 <s 5 \<and>
   5 \<le>s slice (\<lambda>r::nat. [- 4, 2, 5, 5, 9]) (0, 0) 5 ! nat 2 \<and>
   5 \<le>s slice (\<lambda>r::nat. [- 4, 2, 5, 5, 9]) (0, 0) 5 ! nat 3 \<and>
   5 \<le>s slice (\<lambda>r::nat. [- 4, 2, 5, 5, 9]) (0, 0) 5 ! nat 4"
proof -
  have v: "valid (\<lambda>r::nat. [- 4, 2, 5, 5, 9]) (0, 0) 5"
    by (simp add: valid_def)
  have s: "sorted64 (slice (\<lambda>r::nat. [- 4, 2, 5, 5, 9]) (0, 0) 5)"
    by (simp add: slice_def sorted64_def word_sle_eq)
  have e: "GB_pivot_search (\<lambda>r::nat. [- 4, 2, 5, 5, 9]) (0, 0) 5 0 (5 - 1) = Some (Inr (2, 2))"
    "GB_pivot_adjust (\<lambda>r::nat. [- 4, 2, 5, 5, 9]) (0, 0) 5 2 2 = Inr (2, 2)"
    by code_simp+
  from GB_pivot_split_correct [OF v s, of 5] v s e
  show ?thesis by (auto simp add: slice_def word_sle_eq word_sless_alt)
qed

section \<open>Reading and writing windows of an array\<close>

lemma length_overwrite:
  "k + length xs \<le> length old \<Longrightarrow> length (overwrite k xs old) = length old"
  by (simp add: overwrite_def)

lemma overwrite_same:
  assumes "k + n \<le> length old"
  shows "overwrite k (take n (drop k old)) old = old"
proof -
  have "take k old @ take n (drop k old) @ drop (k + n) old = old"
    by (metis add.commute append_take_drop_id drop_drop)
  moreover have "length (take n (drop k old)) = n" using assms by simp
  ultimately show ?thesis by (simp only: overwrite_def)
qed

lemma window_parts:
  assumes "k \<le> length old"
  shows "take (length b) (drop (k + length a) (take k old @ (a @ b @ d) @ R)) = b"
    and "take (k + length a) (take k old @ (a @ b @ d) @ R) = take k old @ a"
    and "drop (k + length a + length b) (take k old @ (a @ b @ d) @ R) = d @ R"
  using assms by simp_all

lemma take_drop_overwrite:
  assumes "k \<le> length old"
  shows "take (length b) (drop (k + length a) (overwrite k (a @ b @ d) old)) = b"
  unfolding overwrite_def using assms by (rule window_parts(1))

lemma overwrite_window:
  assumes "k \<le> length old" and "length c = length b"
  shows "overwrite (k + length a) c (overwrite k (a @ b @ d) old) = overwrite k (a @ c @ d) old"
proof -
  let ?R = "drop (k + length (a @ b @ d)) old"
  have "overwrite (k + length a) c (overwrite k (a @ b @ d) old)
      = take (k + length a) (take k old @ (a @ b @ d) @ ?R) @ c
        @ drop (k + length a + length b) (take k old @ (a @ b @ d) @ ?R)"
    by (simp only: overwrite_def assms(2))
  also have "\<dots> = (take k old @ a) @ c @ (d @ ?R)"
    by (simp only: window_parts(2,3) [OF assms(1)])
  also have "\<dots> = overwrite k (a @ c @ d) old"
    by (simp add: overwrite_def assms(2))
  finally show ?thesis .
qed

lemma overwrite_append:
  assumes "k + length xs + length ys \<le> length old"
  shows "overwrite (k + length xs) ys (overwrite k xs old) = overwrite k (xs @ ys) old"
proof -
  let ?b = "take (length ys) (drop (k + length xs) old)"
  have lb: "length ?b = length ys" using assms by simp
  have "k + (length xs + length ys) \<le> length old" using assms by simp
  then have "overwrite (k + length xs) ?b old = old"
    using overwrite_same [of "k + length xs" "length ys" old] by (simp add: add.assoc)
  have 1: "overwrite k (xs @ ?b) old = overwrite k xs old"
  proof -
    have "drop (k + length xs) old = ?b @ drop (k + length xs + length ys) old"
      by (metis add.commute append_take_drop_id drop_drop)
    then show ?thesis
      by (simp add: overwrite_def lb add.assoc del: length_take)
  qed
  have "overwrite (k + length xs) ys (overwrite k (xs @ ?b @ []) old)
      = overwrite k (xs @ ys @ []) old"
    using assms lb by (intro overwrite_window) simp_all
  then have "overwrite (k + length xs) ys (overwrite k (xs @ ?b) old)
      = overwrite k (xs @ ys) old"
    by (simp only: append_Nil2)
  then show ?thesis by (simp only: 1)
qed

lemma drop_overwrite_after:
  assumes "k + length xs \<le> length old"
  shows "drop (k + length xs + j) (overwrite k xs old) = drop (k + length xs + j) old"
  using assms by (simp add: overwrite_def add.commute add.left_commute)

lemma fst_ptr_add [simp]: "fst (ptr_add p k) = fst p"
  by (simp add: ptr_add_def)

lemma snd_ptr_add [simp]: "snd (ptr_add p k) = snd p + k"
  by (simp add: ptr_add_def)

lemma ptr_add_0 [simp]: "ptr_add p 0 = p"
  by (simp add: ptr_add_def)

lemma ptr_add_add: "ptr_add (ptr_add p a) b = ptr_add p (a + b)"
  by (simp add: ptr_add_def)

lemma valid_bounds:
  assumes "valid m p n"
  shows "0 \<le> snd p" and "0 \<le> n" and "nat (snd p) + nat n \<le> length (m (fst p))"
  using assms unfolding valid_def by linarith+

lemma put_other [simp]: "r \<noteq> fst p \<Longrightarrow> put m p xs r = m r"
  by (simp add: put_def)

lemma put_Nil [simp]: "put m p [] = m"
  by (simp add: put_def overwrite_def)

lemma slice_0 [simp]: "slice m p 0 = []"
  by (simp add: slice_def)

lemma length_put:
  assumes "valid m p (int (length xs))"
  shows "length (put m p xs r) = length (m r)"
proof (cases "r = fst p")
  case True
  from valid_bounds(3) [OF assms] have "nat (snd p) + length xs \<le> length (m (fst p))"
    by simp
  then show ?thesis using True by (simp add: put_def length_overwrite)
next
  case False
  then show ?thesis by simp
qed

lemma valid_put:
  "valid m p (int (length xs)) \<Longrightarrow> valid (put m p xs) q n = valid m q n"
  by (simp add: valid_def [of _ q] length_put)

lemma valid_sub:
  "valid m p n \<Longrightarrow> 0 \<le> a \<Longrightarrow> 0 \<le> b \<Longrightarrow> a + b \<le> n \<Longrightarrow> valid m (ptr_add p a) b"
  by (simp add: valid_def)

lemma slice_put_other:
  "fst q \<noteq> fst p \<Longrightarrow> slice (put m p xs) q n = slice m q n"
  by (simp add: slice_def)

lemma put_commute:
  "fst p \<noteq> fst q \<Longrightarrow> put (put m p xs) q ys = put (put m q ys) p xs"
  by (auto simp add: put_def fun_eq_iff)

lemma put_slice_same:
  assumes "valid m p n"
  shows "put m p (slice m p n) = m"
proof -
  from valid_bounds(3) [OF assms]
  have "overwrite (nat (snd p)) (take (nat n) (drop (nat (snd p)) (m (fst p)))) (m (fst p))
          = m (fst p)"
    by (rule overwrite_same)
  then show ?thesis by (simp add: put_def slice_def)
qed

lemma put_put_append:
  assumes "valid m p (int (length xs) + int (length ys))"
  shows "put (put m p xs) (ptr_add p (int (length xs))) ys = put m p (xs @ ys)"
proof -
  from valid_bounds [OF assms]
  have nn: "0 \<le> snd p" and len: "nat (snd p) + length xs + length ys \<le> length (m (fst p))"
    by (simp_all add: nat_add_distrib)
  have k: "nat (snd p + int (length xs)) = nat (snd p) + length xs"
    using nn by (simp add: nat_add_distrib)
  show ?thesis
    by (simp add: put_def k overwrite_append [OF len])
qed

lemma slice_put_window:
  assumes "valid m p (int (length (a @ b @ d)))"
  shows "slice (put m p (a @ b @ d)) (ptr_add p (int (length a))) (int (length b)) = b"
proof -
  from valid_bounds [OF assms]
  have nn: "0 \<le> snd p" and len: "nat (snd p) \<le> length (m (fst p))"
    by simp_all
  have k: "nat (snd p + int (length a)) = nat (snd p) + length a"
    using nn by (simp add: nat_add_distrib)
  show ?thesis
    by (simp add: put_def slice_def k take_drop_overwrite [OF len] del: append_assoc length_append)
qed

lemma put_put_window:
  assumes "valid m p (int (length (a @ b @ d)))" and "length c = length b"
  shows "put (put m p (a @ b @ d)) (ptr_add p (int (length a))) c = put m p (a @ c @ d)"
proof -
  from valid_bounds [OF assms(1)]
  have nn: "0 \<le> snd p" and len: "nat (snd p) \<le> length (m (fst p))"
    by simp_all
  have k: "nat (snd p + int (length a)) = nat (snd p) + length a"
    using nn by (simp add: nat_add_distrib)
  show ?thesis
    by (simp add: put_def k overwrite_window [OF len assms(2)] del: append_assoc length_append)
qed

lemma slice_put_same:
  assumes "valid m p (int (length xs))"
  shows "slice (put m p xs) p (int (length xs)) = xs"
  using slice_put_window [of m p "[]" xs "[]"] assms by simp

lemma put_put_same:
  assumes "valid m p (int (length xs))" and "length ys = length xs"
  shows "put (put m p xs) p ys = put m p ys"
  using put_put_window [of m p "[]" xs "[]" ys] assms by simp

lemma slice_put_after:
  assumes "valid m p (int (length xs))" and "fst q = fst p"
    and "snd p + int (length xs) \<le> snd q"
  shows "slice (put m p xs) q n = slice m q n"
proof -
  from valid_bounds [OF assms(1)]
  have nn: "0 \<le> snd p" and len: "nat (snd p) + length xs \<le> length (m (fst p))"
    by simp_all
  define j where "j = nat (snd q) - (nat (snd p) + length xs)"
  have j: "nat (snd q) = nat (snd p) + length xs + j"
    unfolding j_def using assms(3) nn by linarith
  show ?thesis
    by (simp add: put_def slice_def assms(2) j drop_overwrite_after [OF len])
qed

lemma slice_append:
  assumes "0 \<le> snd p" and "0 \<le> a" and "0 \<le> b"
  shows "slice m p (a + b) = slice m p a @ slice m (ptr_add p a) b"
proof -
  have "nat (snd p + a) = nat (snd p) + nat a" "nat (a + b) = nat a + nat b"
    using assms by (simp_all add: nat_add_distrib)
  then show ?thesis
    by (simp add: slice_def take_add add.commute)
qed

lemma store_put:
  assumes "valid m (ptr_add S p) 1"
  shows "store m S p v = Inr (put m (ptr_add S p) [v])"
proof -
  from valid_bounds [OF assms]
  have b: "0 \<le> snd S + p" "nat (snd S + p) < length (m (fst S))"
    by simp_all
  then have "(m (fst S)) [nat (snd S + p) := v]
      = overwrite (nat (snd S + p)) [v] (m (fst S))"
    by (simp add: upd_conv_take_nth_drop overwrite_def)
  with b show ?thesis
    by (simp add: store_def put_def Let_def)
qed

lemma slice_Cons:
  assumes "valid m p n" and "0 < n"
  shows "\<exists>x. load m p 0 = Inr x \<and> slice m p n = x # slice m (ptr_add p 1) (n - 1)"
proof -
  from valid_bounds [OF assms(1)] have nn: "0 \<le> snd p" by simp
  have "slice m p (1 + (n - 1)) = slice m p 1 @ slice m (ptr_add p 1) (n - 1)"
    using nn assms(2) by (intro slice_append) simp_all
  moreover have "load m p 0 = Inr (slice m p n ! nat 0)"
    using assms by (intro load_slice) simp_all
  moreover have "slice m p 1 = [slice m p n ! 0]"
  proof -
    from valid_bounds [OF assms(1)] assms(2)
    have "nat (snd p) < length (m (fst p))" by linarith
    then have "take 1 (drop (nat (snd p)) (m (fst p))) = [m (fst p) ! nat (snd p)]"
      by (simp add: take_Suc_conv_app_nth hd_drop_conv_nth take_Suc)
    moreover have "slice m p n ! 0 = m (fst p) ! nat (snd p)"
      using assms(2) \<open>nat (snd p) < length (m (fst p))\<close> by (simp add: slice_def)
    ultimately show ?thesis by (simp add: slice_def)
  qed
  ultimately show ?thesis by simp
qed

section \<open>Sequential merge\<close>

lemma merge64_Nil2 [simp]: "merge64 xs [] = xs"
  by (cases xs) simp_all

lemma length_merge64 [simp]: "length (merge64 xs ys) = length xs + length ys"
  by (induction xs ys rule: merge64.induct) simp_all

lemma mset_merge64 [simp]: "mset (merge64 xs ys) = mset xs + mset ys"
  by (induction xs ys rule: merge64.induct) simp_all

lemma set_merge64 [simp]: "set (merge64 xs ys) = set xs \<union> set ys"
  by (induction xs ys rule: merge64.induct) auto

lemma sorted64_Cons: "sorted64 (x # xs) = ((\<forall>y \<in> set xs. x \<le>s y) \<and> sorted64 xs)"
  by (simp add: sorted64_def)

lemma sorted64_merge64:
  "sorted64 xs \<Longrightarrow> sorted64 ys \<Longrightarrow> sorted64 (merge64 xs ys)"
proof (induction xs ys rule: merge64.induct)
  case (3 x xs y ys)
  show ?case
  proof (cases "x <s y")
    case True
    then have "x \<le>s y" by (simp add: word_sle_eq word_sless_alt)
    moreover have "\<forall>z \<in> set ys. x \<le>s z"
      using 3(4) True by (auto simp add: sorted64_Cons word_sle_eq word_sless_alt)
    ultimately show ?thesis
      using 3 True by (auto simp add: sorted64_Cons)
  next
    case False
    then have "y \<le>s x" by (simp add: word_sle_eq word_sless_alt)
    moreover have "\<forall>z \<in> set xs. y \<le>s z"
      using 3(3) False by (auto simp add: sorted64_Cons word_sle_eq word_sless_alt)
    ultimately show ?thesis
      using 3 False by (auto simp add: sorted64_Cons)
  qed
qed simp_all

lemma load_ptr_add: "load m (ptr_add p a) i = load m p (a + i)"
  by (simp add: load_def Let_def add.assoc)

lemma memcpy_put:
  "valid m src n \<Longrightarrow> valid m dst n \<Longrightarrow> memcpy m dst src n = Inr (put m dst (slice m src n))"
  by (simp add: memcpy_def)

lemma GB_merge_sequential_1_rest_run:
  assumes "\<not> (pl < nl \<and> pr < nr)" and "pl \<le> nl" and "pr \<le> nr"
    and "valid m (ptr_add Left_0 pl) (nl - pl)" and "valid m (ptr_add Right_0 pr) (nr - pr)"
    and "valid m (ptr_add S p) ((nl - pl) + (nr - pr))"
  shows "GB_merge_sequential_1_rest m S Left_0 nl Right_0 nr p pl pr =
           Inr (put m (ptr_add S p)
                  (merge64 (slice m (ptr_add Left_0 pl) (nl - pl))
                           (slice m (ptr_add Right_0 pr) (nr - pr))))"
proof (cases "pl < nl")
  case True
  with assms have "pr = nr" by simp
  then show ?thesis
    using True assms by (simp add: GB_merge_sequential_1_rest_def memcpy_put)
next
  case False
  with assms have "pl = nl" by simp
  then show ?thesis
    using assms by (simp add: GB_merge_sequential_1_rest_def memcpy_put)
qed


lemma GB_merge_sequential_1_loop_run:
  assumes "fst S \<noteq> fst Left_0" and "fst S \<noteq> fst Right_0"
    and "valid m Left_0 nl" and "valid m Right_0 nr"
    and "0 \<le> pl" and "pl \<le> nl" and "0 \<le> pr" and "pr \<le> nr"
    and "valid m (ptr_add S p) ((nl - pl) + (nr - pr))"
  shows "(case GB_merge_sequential_1_loop m S Left_0 nl Right_0 nr p pl pr of
            Inl e \<Rightarrow> Inl e
          | Inr (m', p', pl', pr') \<Rightarrow>
              GB_merge_sequential_1_rest m' S Left_0 nl Right_0 nr p' pl' pr') =
         Inr (put m (ptr_add S p)
                (merge64 (slice m (ptr_add Left_0 pl) (nl - pl))
                         (slice m (ptr_add Right_0 pr) (nr - pr))))"
  using assms
proof (induction m S Left_0 nl Right_0 nr p pl pr rule: GB_merge_sequential_1_loop.induct)
  case (1 m S Left_0 nl Right_0 nr p pl pr)
  let ?L = "ptr_add Left_0 pl" and ?R = "ptr_add Right_0 pr" and ?S = "ptr_add S p"
  have vL: "valid m ?L (nl - pl)" and vR: "valid m ?R (nr - pr)"
    using "1.prems" by (auto intro: valid_sub)
  show ?case
  proof (cases "pl < nl \<and> pr < nr")
    case False
    have "GB_merge_sequential_1_loop m S Left_0 nl Right_0 nr p pl pr = Inr (m, p, pl, pr)"
      by (simp only: GB_merge_sequential_1_loop.simps [of m S Left_0 nl Right_0 nr p pl pr]
            False if_False)
    then show ?thesis
      using GB_merge_sequential_1_rest_run [OF False "1.prems"(6,8) vL vR "1.prems"(9)]
      by simp
  next
    case True
    from slice_Cons [OF vL] True obtain x where
      x: "load m ?L 0 = Inr x" "slice m ?L (nl - pl) = x # slice m (ptr_add ?L 1) (nl - pl - 1)"
      by auto
    from slice_Cons [OF vR] True obtain y where
      y: "load m ?R 0 = Inr y" "slice m ?R (nr - pr) = y # slice m (ptr_add ?R 1) (nr - pr - 1)"
      by auto
    have lx: "load m Left_0 pl = Inr x" and ly: "load m Right_0 pr = Inr y"
      using x(1) y(1) by (simp_all add: load_ptr_add)
    have d: "nl - (pl + 1) = nl - pl - 1" "nr - (pr + 1) = nr - pr - 1" by simp_all
    have lt: "GB_lt_1 m Left_0 pl Right_0 pr = Inr (x <s y)"
      by (simp add: GB_lt_1_def lx ly)
    have vS1: "valid m ?S 1"
      using "1.prems"(9) True by (simp add: valid_def)
    let ?m1 = "\<lambda>v. put m ?S [v]"
    have st: "store m S p v = Inr (?m1 v)" for v
      using vS1 by (rule store_put)
    have v1: "valid m ?S (int (length [v]))" for v using vS1 by simp
    have keepL: "slice (?m1 v) q n = slice m q n" if "fst q = fst Left_0" for v q n
      using "1.prems"(1) that by (intro slice_put_other) simp
    have keepR: "slice (?m1 v) q n = slice m q n" if "fst q = fst Right_0" for v q n
      using "1.prems"(2) that by (intro slice_put_other) simp
    show ?thesis
    proof (cases "x <s y")
      case xy: True
      let ?zs = "merge64 (slice m (ptr_add Left_0 (pl + 1)) (nl - (pl + 1))) (slice m ?R (nr - pr))"
      have pre: "valid (?m1 x) Left_0 nl" "valid (?m1 x) Right_0 nr" "0 \<le> pl + 1" "pl + 1 \<le> nl"
        "valid (?m1 x) (ptr_add S (p + 1)) ((nl - (pl + 1)) + (nr - pr))"
        using "1.prems" True by (simp_all add: valid_put [OF v1]) (simp add: valid_def)
      have ih: "(case GB_merge_sequential_1_loop (?m1 x) S Left_0 nl Right_0 nr (p + 1) (pl + 1) pr of
            Inl e \<Rightarrow> Inl e
          | Inr (m', p', pl', pr') \<Rightarrow>
              GB_merge_sequential_1_rest m' S Left_0 nl Right_0 nr p' pl' pr') =
         Inr (put (?m1 x) (ptr_add S (p + 1)) ?zs)"
        using "1.IH"(1) [OF True lt eqTrueI [OF xy] lx st "1.prems"(1,2) pre(1,2,3,4) "1.prems"(7,8) pre(5)]
        by (simp add: keepL keepR)
      have unf: "GB_merge_sequential_1_loop m S Left_0 nl Right_0 nr p pl pr =
                 GB_merge_sequential_1_loop (?m1 x) S Left_0 nl Right_0 nr (p + 1) (pl + 1) pr"
        by (simp add: GB_merge_sequential_1_loop.simps [of m S Left_0 nl Right_0 nr p pl pr]
              True lt xy lx st)
      have len: "int (length ?zs) = (nl - (pl + 1)) + (nr - pr)"
        using vL vR True "1.prems"
        by (simp add: length_slice valid_def ptr_add_def)
      have e: "int (length [x]) + int (length ?zs) = (nl - pl) + (nr - pr)"
        using len by simp
      have "put (?m1 x) (ptr_add ?S (int (length [x]))) ?zs = put m ?S ([x] @ ?zs)"
        by (rule put_put_append) (simp only: e "1.prems"(9))
      then have "put (?m1 x) (ptr_add S (p + 1)) ?zs = put m ?S (x # ?zs)"
        by (simp add: ptr_add_add)
      moreover have "merge64 (slice m ?L (nl - pl)) (slice m ?R (nr - pr)) = x # ?zs"
        using xy by (simp add: x(2) y(2) ptr_add_add d)
      ultimately show ?thesis
        by (simp only: unf ih)
    next
      case xy: False
      then have xyF: "(x <s y) = False" by simp
      let ?zs = "merge64 (slice m ?L (nl - pl)) (slice m (ptr_add Right_0 (pr + 1)) (nr - (pr + 1)))"
      have pre: "valid (?m1 y) Left_0 nl" "valid (?m1 y) Right_0 nr" "0 \<le> pr + 1" "pr + 1 \<le> nr"
        "valid (?m1 y) (ptr_add S (p + 1)) ((nl - pl) + (nr - (pr + 1)))"
        using "1.prems" True by (simp_all add: valid_put [OF v1]) (simp add: valid_def)
      have ih: "(case GB_merge_sequential_1_loop (?m1 y) S Left_0 nl Right_0 nr (p + 1) pl (pr + 1) of
            Inl e \<Rightarrow> Inl e
          | Inr (m', p', pl', pr') \<Rightarrow>
              GB_merge_sequential_1_rest m' S Left_0 nl Right_0 nr p' pl' pr') =
         Inr (put (?m1 y) (ptr_add S (p + 1)) ?zs)"
        using "1.IH"(2) [OF True lt xyF ly st "1.prems"(1,2) pre(1,2) "1.prems"(5,6) pre(3,4,5)]
        by (simp add: keepL keepR)
      have unf: "GB_merge_sequential_1_loop m S Left_0 nl Right_0 nr p pl pr =
                 GB_merge_sequential_1_loop (?m1 y) S Left_0 nl Right_0 nr (p + 1) pl (pr + 1)"
        by (simp add: GB_merge_sequential_1_loop.simps [of m S Left_0 nl Right_0 nr p pl pr]
              True lt xy ly st)
      have len: "int (length ?zs) = (nl - pl) + (nr - (pr + 1))"
        using vL vR True "1.prems"
        by (simp add: length_slice valid_def ptr_add_def)
      have e: "int (length [y]) + int (length ?zs) = (nl - pl) + (nr - pr)"
        using len by simp
      have "put (?m1 y) (ptr_add ?S (int (length [y]))) ?zs = put m ?S ([y] @ ?zs)"
        by (rule put_put_append) (simp only: e "1.prems"(9))
      then have "put (?m1 y) (ptr_add S (p + 1)) ?zs = put m ?S (y # ?zs)"
        by (simp add: ptr_add_add)
      moreover have "merge64 (slice m ?L (nl - pl)) (slice m ?R (nr - pr)) = y # ?zs"
        using xy by (simp add: x(2) y(2) ptr_add_add d)
      ultimately show ?thesis
        by (simp only: unf ih)
    qed
  qed
qed

lemma GB_merge_sequential_1_run:
  assumes "fst S \<noteq> fst Left_0" and "fst S \<noteq> fst Right_0"
    and "valid m Left_0 nl" and "valid m Right_0 nr" and "valid m S (nl + nr)"
  shows "GB_merge_sequential_1 m S Left_0 nl Right_0 nr =
           Inr (put m S (merge64 (slice m Left_0 nl) (slice m Right_0 nr)))"
proof -
  from valid_bounds [OF assms(3)] valid_bounds [OF assms(4)]
  have nn: "0 \<le> nl" "0 \<le> nr" by simp_all
  have "valid m (ptr_add S 0) ((nl - 0) + (nr - 0))" using assms(5) by simp
  from GB_merge_sequential_1_loop_run [OF assms(1-4) _ nn(1) _ nn(2) this]
  show ?thesis by (simp add: GB_merge_sequential_1_def)
qed

section \<open>Sorted lists of 64-bit signed integers\<close>

lemma sorted64_map: "sorted64 xs = sorted (map sint xs)"
  by (simp add: sorted64_def sorted_map word_sle_eq)

lemma sorted64_append:
  "sorted64 (xs @ ys) = (sorted64 xs \<and> sorted64 ys \<and> (\<forall>x \<in> set xs. \<forall>y \<in> set ys. x \<le>s y))"
  by (simp add: sorted64_def sorted_wrt_append)

lemma sorted64_sort64 [simp]: "sorted64 (sort64 xs)"
  by (simp add: sorted64_map sort64_def)

lemma mset_sort64 [simp]: "mset (sort64 xs) = mset xs"
  by (simp add: sort64_def)

lemma set_sort64 [simp]: "set (sort64 xs) = set xs"
  by (simp add: sort64_def)

lemma length_sort64 [simp]: "length (sort64 xs) = length xs"
  by (simp add: sort64_def)

lemma inj_on_sint64: "inj_on (sint :: int64 \<Rightarrow> int) A"
  by (rule inj_onI) (rule signed_word_eqI)

lemma sort64_unique:
  assumes "mset ys = mset xs" and "sorted64 ys"
  shows "sort64 xs = ys"
  unfolding sort64_def
  using assms(1) [symmetric] inj_on_sint64 assms(2) [unfolded sorted64_map]
  by (rule sort_key_inj_key_eq)

lemma sort64_mset_cong: "mset xs = mset ys \<Longrightarrow> sort64 xs = sort64 ys"
  by (rule sort64_unique) simp_all

lemma merge64_sort64:
  "sorted64 xs \<Longrightarrow> sorted64 ys \<Longrightarrow> merge64 xs ys = sort64 (xs @ ys)"
  by (rule sort64_unique [symmetric]) (simp_all add: sorted64_merge64)

lemma sle_trans: "a \<le>s b \<Longrightarrow> b \<le>s c \<Longrightarrow> a \<le>s c"
  by (simp add: word_sle_eq)

lemma sless_imp_sle: "a <s b \<Longrightarrow> a \<le>s b"
  by (simp add: word_sle_eq word_sless_alt)

lemma slice_prefix:
  assumes "0 \<le> k" and "k \<le> n"
  shows "slice m p k = take (nat k) (slice m p n)"
proof -
  have "min (nat k) (nat n) = nat k" using assms by simp
  then show ?thesis by (simp add: slice_def)
qed

lemma slice_suffix:
  assumes "0 \<le> snd p" and "0 \<le> k" and "k \<le> n"
  shows "slice m (ptr_add p k) (n - k) = drop (nat k) (slice m p n)"
proof -
  have "nat (snd p + k) = nat k + nat (snd p)" "nat (n - k) = nat n - nat k"
    using assms by (simp_all add: nat_add_distrib nat_diff_distrib)
  then show ?thesis
    by (simp add: slice_def drop_take)
qed

section \<open>Parallel merge\<close>

lemma GB_merge_parallel_1_split_run:
  assumes "valid m Bigger_0 nb" and "1 \<le> nb" and "valid m Smaller_0 ns"
  shows "\<exists>k. GB_merge_parallel_1_split m Bigger_0 nb Smaller_0 ns = Some (Inr (nb div 2, k)) \<and>
           0 \<le> k \<and> k \<le> ns \<and>
           (sorted64 (slice m Smaller_0 ns) \<longrightarrow>
              (\<forall>x \<in> set (slice m Smaller_0 k). x <s slice m Bigger_0 nb ! nat (nb div 2)) \<and>
              (\<forall>x \<in> set (slice m (ptr_add Smaller_0 k) (ns - k)).
                  slice m Bigger_0 nb ! nat (nb div 2) \<le>s x))"
proof -
  let ?h = "nb div 2" and ?ss = "slice m Smaller_0 ns"
  let ?P = "slice m Bigger_0 nb ! nat ?h"
  have h: "c_div nb 2 = ?h" "0 \<le> ?h" "?h < nb"
    using assms(2) by (simp_all add: c_div_nonneg)
  have ld: "load m Bigger_0 ?h = Inr ?P"
    using assms(1) h(2,3) by (rule load_slice)
  from GB_pivot_split_run [OF assms(3), of ?P]
  obtain pl pr k pr' where
    s: "GB_pivot_search m Smaller_0 ?P 0 (ns - 1) = Some (Inr (pl, pr))"
       "GB_pivot_adjust m Smaller_0 ?P pl pr = Inr (k, pr')" "0 \<le> k" "k \<le> ns"
    and inv: "sorted64 ?ss \<longrightarrow> (\<forall>i. 0 \<le> i \<and> i < k \<longrightarrow> ?ss ! nat i <s ?P) \<and>
              (\<forall>i. k \<le> i \<and> i < ns \<longrightarrow> ?P \<le>s ?ss ! nat i)"
    by blast
  have run: "GB_merge_parallel_1_split m Bigger_0 nb Smaller_0 ns = Some (Inr (?h, k))"
    by (simp add: GB_merge_parallel_1_split_def h(1) ld s(1,2))
  have len: "length ?ss = nat ns" using assms(3) by (rule length_slice)
  from valid_bounds [OF assms(3)] have nn: "0 \<le> snd Smaller_0" by simp
  have pre: "slice m Smaller_0 k = take (nat k) ?ss"
    using s(3,4) by (rule slice_prefix)
  have suf: "slice m (ptr_add Smaller_0 k) (ns - k) = drop (nat k) ?ss"
    using nn s(3,4) by (rule slice_suffix)
  have "(\<forall>x \<in> set (slice m Smaller_0 k). x <s ?P) \<and>
        (\<forall>x \<in> set (slice m (ptr_add Smaller_0 k) (ns - k)). ?P \<le>s x)" if srt: "sorted64 ?ss"
  proof (intro conjI ballI)
    fix x assume "x \<in> set (slice m Smaller_0 k)"
    then obtain i where i: "i < nat k" "i < length ?ss" "x = ?ss ! i"
      unfolding pre by (auto simp add: in_set_conv_nth)
    from inv srt i(1) have "?ss ! nat (int i) <s ?P" by (intro inv [rule_format, THEN conjunct1, rule_format]) auto
    then show "x <s ?P" using i(3) by simp
  next
    fix x assume "x \<in> set (slice m (ptr_add Smaller_0 k) (ns - k))"
    then obtain j where "j < length ?ss - nat k" "x = ?ss ! (nat k + j)"
      unfolding suf by (auto simp add: in_set_conv_nth)
    then have j: "nat k + j < length ?ss" "x = ?ss ! (nat k + j)"
      by simp_all
    have "?P \<le>s ?ss ! nat (k + int j)"
      using srt j(1) len s(3) by (intro inv [rule_format, THEN conjunct2, rule_format]) auto
    moreover have "nat (k + int j) = nat k + j" using s(3) by (simp add: nat_add_distrib)
    ultimately show "?P \<le>s x" using j(2) by simp
  qed
  with run s(3,4) show ?thesis by blast
qed

lemma sorted64_halves:
  assumes "sorted64 (b0 @ b1)" and "b1 \<noteq> []"
  shows "\<forall>x \<in> set b0. x \<le>s hd b1" and "\<forall>y \<in> set b1. hd b1 \<le>s y"
proof -
  from assms(2) obtain c cs where b1: "b1 = c # cs" by (cases b1) auto
  from assms(1) show "\<forall>x \<in> set b0. x \<le>s hd b1"
    by (simp add: sorted64_append b1)
  from assms(1) show "\<forall>y \<in> set b1. hd b1 \<le>s y"
    by (auto simp add: sorted64_append b1 sorted64_Cons word_sle_eq)
qed

lemma sort64_two_parts:
  assumes "\<forall>x \<in> set b0 \<union> set s0. x \<le>s P" and "\<forall>y \<in> set b1 \<union> set s1. P \<le>s y"
  shows "sort64 (b0 @ s0) @ sort64 (b1 @ s1) = sort64 ((b0 @ b1) @ (s0 @ s1))"
proof (rule sort64_unique [symmetric])
  show "mset (sort64 (b0 @ s0) @ sort64 (b1 @ s1)) = mset ((b0 @ b1) @ s0 @ s1)"
    by simp
  have "x \<le>s y" if "x \<in> set b0 \<union> set s0" "y \<in> set b1 \<union> set s1" for x y
    using assms that by (blast intro: sle_trans)
  then show "sorted64 (sort64 (b0 @ s0) @ sort64 (b1 @ s1))"
    by (simp add: sorted64_append)
qed

lemma and_then_Inr [simp]: "and_then (Some (Inr v)) f = f v"
  by (simp add: and_then_def)

lemma mergeable_prefix:
  assumes "mergeable m S B nb Sm ns" and "0 \<le> h" and "h \<le> nb" and "0 \<le> k" and "k \<le> ns"
  shows "mergeable m S B h Sm k"
proof -
  from assms(1) have d: "fst S \<noteq> fst B" "fst S \<noteq> fst Sm"
    and v: "valid m B nb" "valid m Sm ns" "valid m S (nb + ns)"
    and srt: "sorted64 (slice m B nb)" "sorted64 (slice m Sm ns)"
    by (simp_all add: mergeable_def)
  have "sorted64 (take (nat h) (slice m B nb))" "sorted64 (take (nat k) (slice m Sm ns))"
    using srt by (simp_all add: sorted64_def sorted_wrt_take)
  then have "sorted64 (slice m B h)" "sorted64 (slice m Sm k)"
    using assms(2-5) by (simp_all add: slice_prefix [symmetric])
  moreover have "valid m B h" "valid m Sm k" "valid m S (h + k)"
    using v assms(2-5) by (simp_all add: valid_def)
  ultimately show ?thesis using d by (simp add: mergeable_def)
qed

lemma mergeable_suffix:
  assumes "mergeable m S B nb Sm ns" and "0 \<le> h" and "h \<le> nb" and "0 \<le> k" and "k \<le> ns"
  shows "mergeable m (ptr_add S (h + k)) (ptr_add B h) (nb - h) (ptr_add Sm k) (ns - k)"
proof -
  from assms(1) have d: "fst S \<noteq> fst B" "fst S \<noteq> fst Sm"
    and v: "valid m B nb" "valid m Sm ns" "valid m S (nb + ns)"
    and srt: "sorted64 (slice m B nb)" "sorted64 (slice m Sm ns)"
    by (simp_all add: mergeable_def)
  from valid_bounds [OF v(1)] valid_bounds [OF v(2)]
  have nn: "0 \<le> snd B" "0 \<le> snd Sm" by simp_all
  have "sorted64 (drop (nat h) (slice m B nb))" "sorted64 (drop (nat k) (slice m Sm ns))"
    using srt by (simp_all add: sorted64_def sorted_wrt_drop)
  then have "sorted64 (slice m (ptr_add B h) (nb - h))" "sorted64 (slice m (ptr_add Sm k) (ns - k))"
    using assms(2-5) nn by (simp_all add: slice_suffix)
  moreover have "valid m (ptr_add B h) (nb - h)" "valid m (ptr_add Sm k) (ns - k)"
    "valid m (ptr_add S (h + k)) ((nb - h) + (ns - k))"
    using v assms(2-5) by (simp_all add: valid_def)
  ultimately show ?thesis using d by (simp add: mergeable_def)
qed

lemma mergeable_put:
  assumes "mergeable m S L nl R nr" and "fst q = fst S" and "valid m q (int (length xs))"
  shows "mergeable (put m q xs) S L nl R nr"
proof -
  from assms(1,2) have "fst L \<noteq> fst q" "fst R \<noteq> fst q"
    by (auto simp add: mergeable_def)
  then show ?thesis
    using assms by (simp add: mergeable_def valid_put slice_put_other)
qed

lemma mergeable_swap: "mergeable m S L nl R nr \<Longrightarrow> mergeable m S R nr L nl"
  by (simp add: mergeable_def add.commute)

lemma GB_merge_select_1_step:
  assumes par: "\<And>(m :: 'r memory) S B nb Sm ns.
             mergeable m S B nb Sm ns \<Longrightarrow> ns \<le> nb \<Longrightarrow> 1 \<le> nb \<Longrightarrow> nb + ns < int f \<Longrightarrow>
             GB_merge_parallel_1 f bc m S B nb Sm ns =
               Some (Inr (put m S (sort64 (slice m B nb @ slice m Sm ns))))"
    and bc: "1 \<le> bc"
    and pre: "mergeable (m :: 'r memory) S L nl R nr"
    and fuel: "bc \<le> nl + nr \<Longrightarrow> nl + nr < int f"
  shows "GB_merge_select_1 f bc m S L nl R nr =
           Some (Inr (put m S (sort64 (slice m L nl @ slice m R nr))))"
proof (cases "nl + nr < bc")
  case True
  from pre have "GB_merge_sequential_1 m S L nl R nr =
      Inr (put m S (merge64 (slice m L nl) (slice m R nr)))"
    by (intro GB_merge_sequential_1_run) (simp_all add: mergeable_def)
  moreover from pre have "merge64 (slice m L nl) (slice m R nr) = sort64 (slice m L nl @ slice m R nr)"
    by (intro merge64_sort64) (simp_all add: mergeable_def)
  ultimately show ?thesis
    using True by (simp add: GB_merge_select_1.simps)
next
  case False
  then have big: "bc \<le> nl + nr" by simp
  note fl = fuel [OF big]
  show ?thesis
  proof (cases "nr \<le> nl")
    case True
    have "1 \<le> nl" using big bc True by linarith
    from par [OF pre True this fl]
    show ?thesis using True False by (simp add: GB_merge_select_1.simps)
  next
    case swap: False
    have "GB_merge_parallel_1 f bc m S R nr L nl =
            Some (Inr (put m S (sort64 (slice m R nr @ slice m L nl))))"
      using big bc fl swap by (intro par mergeable_swap [OF pre]) simp_all
    moreover have "sort64 (slice m R nr @ slice m L nl) = sort64 (slice m L nl @ slice m R nr)"
      by (rule sort64_mset_cong) simp
    ultimately show ?thesis
      using False swap by (simp add: GB_merge_select_1.simps)
  qed
qed

lemma GB_merge_parallel_1_run:
  assumes bc: "3 \<le> bc"
  shows "mergeable (m :: 'r memory) S B nb Sm ns \<Longrightarrow> ns \<le> nb \<Longrightarrow> 1 \<le> nb \<Longrightarrow>
         nb + ns < int f \<Longrightarrow>
           GB_merge_parallel_1 f bc m S B nb Sm ns =
             Some (Inr (put m S (sort64 (slice m B nb @ slice m Sm ns))))"
proof (induction f arbitrary: m S B nb Sm ns)
  case 0
  from "0.prems"(1) have "0 \<le> nb" "0 \<le> ns"
    by (auto simp add: mergeable_def valid_def)
  with "0.prems"(4) show ?case by simp
next
  case (Suc f)
  note pre = Suc.prems(1)
  from pre have d: "fst S \<noteq> fst B" "fst S \<noteq> fst Sm"
    and v: "valid m B nb" "valid m Sm ns" "valid m S (nb + ns)"
    and srt: "sorted64 (slice m B nb)" "sorted64 (slice m Sm ns)"
    by (simp_all add: mergeable_def)
  from valid_bounds [OF v(1)] valid_bounds [OF v(2)]
  have nn: "0 \<le> snd B" "0 \<le> snd Sm" "0 \<le> nb" "0 \<le> ns" by simp_all
  define h where "h = nb div 2"
  note nb1 = Suc.prems(3)
  then have h: "h < nb" "0 \<le> h" by (simp_all add: h_def)
  have small: "nb + ns < bc" if "h = 0"
  proof -
    from that nb1 have "nb = 1" unfolding h_def by linarith
    with Suc.prems(2) bc show ?thesis by linarith
  qed
  let ?bs = "slice m B nb" and ?ss = "slice m Sm ns"
  let ?P = "?bs ! nat h"
  from GB_merge_parallel_1_split_run [OF v(1) nb1 v(2)] srt(2)
  obtain k where
    split: "GB_merge_parallel_1_split m B nb Sm ns = Some (Inr (h, k))"
    and k: "0 \<le> k" "k \<le> ns"
    and lo: "\<forall>x \<in> set (slice m Sm k). x <s ?P"
    and hi: "\<forall>x \<in> set (slice m (ptr_add Sm k) (ns - k)). ?P \<le>s x"
    unfolding h_def by fastforce
  let ?b0 = "slice m B h" and ?b1 = "slice m (ptr_add B h) (nb - h)"
  let ?s0 = "slice m Sm k" and ?s1 = "slice m (ptr_add Sm k) (ns - k)"
  have bs: "?bs = ?b0 @ ?b1"
    using slice_append [of B h "nb - h" m] nn h by simp
  have ss: "?ss = ?s0 @ ?s1"
    using slice_append [of Sm k "ns - k" m] nn k by simp
  have lb0: "length ?b0 = nat h" and ls0: "length ?s0 = nat k"
    using v h k by (simp_all add: length_slice valid_def)
  have lb1: "length ?b1 = nat (nb - h)"
    using v h by (intro length_slice) (simp add: valid_def)
  then have ne: "?b1 \<noteq> []" using h by auto
  have P: "?P = hd ?b1"
    using ne lb0 by (simp add: bs nth_append hd_conv_nth)
  from sorted64_halves [OF srt(1) [unfolded bs] ne]
  have blo: "\<forall>x \<in> set ?b0. x \<le>s ?P" and bhi: "\<forall>y \<in> set ?b1. ?P \<le>s y"
    by (simp_all only: P)
  have parts: "sort64 (?b0 @ ?s0) @ sort64 (?b1 @ ?s1) = sort64 (?bs @ ?ss)"
    unfolding bs ss
    using blo bhi lo hi by (intro sort64_two_parts) (auto intro: sless_imp_sle)
  have sel: "GB_merge_select_1 f bc m' S' L nl R nr =
           Some (Inr (put m' S' (sort64 (slice m' L nl @ slice m' R nr))))"
    if "mergeable m' S' L nl R nr" "bc \<le> nl + nr \<Longrightarrow> nl + nr < int f"
    for m' :: "'r memory" and S' L nl R nr
  proof (rule GB_merge_select_1_step [OF Suc.IH _ that])
    show "1 \<le> bc" using bc by simp
  qed
  let ?r0 = "sort64 (?b0 @ ?s0)" and ?r1 = "sort64 (?b1 @ ?s1)"
  let ?m1 = "put m S ?r0"
  have t0: "GB_merge_select_1 f bc m S B h Sm k = Some (Inr ?m1)"
    using mergeable_prefix [OF pre h(2) _ k] h(1) Suc.prems(4) k
    by (intro sel) simp_all
  have lr0: "int (length ?r0) = h + k"
    using lb0 ls0 h k by simp
  have vr0: "valid m S (int (length ?r0))"
    using v(3) h k unfolding lr0 by (simp add: valid_def)
  have m1: "mergeable ?m1 (ptr_add S (h + k)) (ptr_add B h) (nb - h) (ptr_add Sm k) (ns - k)"
    using mergeable_suffix [OF pre h(2) _ k] h(1) vr0
    by (intro mergeable_put) simp_all
  have keep: "slice ?m1 (ptr_add B h) (nb - h) = ?b1" "slice ?m1 (ptr_add Sm k) (ns - k) = ?s1"
    using d by (simp_all add: slice_put_other)
  have t1: "GB_merge_select_1 f bc ?m1 (ptr_add S (h + k)) (ptr_add B h) (nb - h)
              (ptr_add Sm k) (ns - k) = Some (Inr (put ?m1 (ptr_add S (h + k)) ?r1))"
  proof -
    have "(nb - h) + (ns - k) < int f" if "bc \<le> (nb - h) + (ns - k)"
    proof (cases "h = 0")
      case True
      from small [OF this] that h k show ?thesis by linarith
    next
      case False
      with h k Suc.prems(4) show ?thesis by linarith
    qed
    from sel [OF m1 this] show ?thesis by (simp add: keep)
  qed
  have lr1: "int (length ?r1) = (nb - h) + (ns - k)"
    using lb1 v(2) k h by (simp add: length_slice valid_def)
  have e: "int (length ?r0) + int (length ?r1) = nb + ns"
    using lr0 lr1 by linarith
  have "put ?m1 (ptr_add S (int (length ?r0))) ?r1 = put m S (?r0 @ ?r1)"
    by (rule put_put_append) (simp only: e v(3))
  then have fin: "put ?m1 (ptr_add S (h + k)) ?r1 = put m S (sort64 (?bs @ ?ss))"
    by (simp only: lr0 parts)
  show ?case
    by (simp add: split t0 ptr_add_add t1 fin)
qed

lemma GB_merge_select_1_run:
  assumes "3 \<le> bc" and "mergeable m S L nl R nr" and "nl + nr < int f"
  shows "GB_merge_select_1 f bc m S L nl R nr =
           Some (Inr (put m S (sort64 (slice m L nl @ slice m R nr))))"
proof (rule GB_merge_select_1_step [OF GB_merge_parallel_1_run [OF assms(1)] _ assms(2)])
  show "1 \<le> bc" using assms(1) by simp
  show "nl + nr < int f" by (rule assms(3))
qed

text \<open>
  The bound 3 on the threshold cannot be lowered. With \<open>GB_BASECASE = 2\<close> and two runs of
  one element each, the smaller not below the bigger, the second task of
  \<open>GB_merge_parallel_1\<close> is the call it came from: the recursion never ends, whatever the
  fuel.
\<close>

lemma GB_merge_parallel_1_basecase_2:
  "GB_merge_parallel_1 fuel 2 (\<lambda>r::nat. [1]) (0, 0) (2, 0) 1 (3, 0) 1 = None"
proof (induction fuel)
  case 0
  show ?case by simp
next
  case (Suc fuel)
  let ?m = "\<lambda>r::nat. [1 :: int64]"
  have split: "GB_merge_parallel_1_split ?m (2, 0) 1 (3, 0) 1 = Some (Inr (0, 0))"
    by code_simp
  have t0: "GB_merge_select_1 fuel 2 ?m (0, 0) (2, 0) 0 (3, 0) 0 = Some (Inr ?m)"
    by (simp add: GB_merge_select_1.simps GB_merge_sequential_1_def
          GB_merge_sequential_1_loop.simps GB_merge_sequential_1_rest_def)
  have t1: "GB_merge_select_1 fuel 2 ?m (0, 0) (2, 0) 1 (3, 0) 1 = None"
    using Suc.IH by (simp add: GB_merge_select_1.simps)
  have p: "ptr_add (ptr_add (0::nat, 0::int) 0) 0 = (0, 0)" "ptr_add (3::nat, 0::int) 0 = (3, 0)"
    "ptr_add (2::nat, 0::int) 0 = (2, 0)"
    by (simp_all add: ptr_add_def)
  show ?case
    by (simp add: split t0 p t1)
qed

section \<open>Claims about merging\<close>

text \<open>
  Claim C2, as stated, fails: for the pair of empty arrays, \<open>GB_merge_parallel_1\<close> reads the
  pivot \<open>Bigger [0]\<close> of an array that has no element, while \<open>GB_merge_sequential_1\<close>
  returns without touching anything. The threshold plays no part in this.
\<close>

theorem GB_merge_parallel_1_empty_counterexample:
  "mergeable (\<lambda>r::nat. []) (0, 0) (1, 0) 0 (2, 0) 0 \<and>
   GB_merge_parallel_1 1 65536 (\<lambda>r::nat. []) (0, 0) (1, 0) 0 (2, 0) 0 = Some (Inl OutOfBounds) \<and>
   GB_merge_sequential_1 (\<lambda>r::nat. []) (0, 0) (1, 0) 0 (2, 0) 0 = Inr (\<lambda>r. [])"
  by (simp add: mergeable_def valid_def slice_def sorted64_def
        GB_merge_parallel_1_split_def c_div_def load_def and_then_def
        GB_merge_sequential_1_def GB_merge_sequential_1_loop.simps
        GB_merge_sequential_1_rest_def)

text \<open>
  Claim C2, amended. For every pair of sorted runs of which the bigger is not empty and is
  passed first, with the output in another array and a threshold \<open>GB_BASECASE\<close> of at
  least 3, \<open>GB_merge_parallel_1\<close> returns and writes into \<open>S\<close> exactly what
  \<open>GB_merge_sequential_1\<close> writes, whichever run the sequential merge is given first:
  the sorted sequence of length \<open>nbigger + nsmaller\<close> that holds the union multiset of
  the two runs.
\<close>

theorem GB_merge_parallel_1_eq_sequential:
  assumes "3 \<le> basecase"
    and "mergeable m S Bigger_0 nbigger Smaller_0 nsmaller"
    and "nsmaller \<le> nbigger" and "1 \<le> nbigger"
    and "nbigger + nsmaller < int fuel"
  shows "GB_merge_parallel_1 fuel basecase m S Bigger_0 nbigger Smaller_0 nsmaller =
           Some (GB_merge_sequential_1 m S Bigger_0 nbigger Smaller_0 nsmaller) \<and>
         GB_merge_sequential_1 m S Smaller_0 nsmaller Bigger_0 nbigger =
           GB_merge_sequential_1 m S Bigger_0 nbigger Smaller_0 nsmaller \<and>
         (\<exists>out. GB_merge_sequential_1 m S Bigger_0 nbigger Smaller_0 nsmaller = Inr (put m S out) \<and>
            slice (put m S out) S (nbigger + nsmaller) = out \<and>
            sorted64 out \<and> int (length out) = nbigger + nsmaller \<and>
            mset out = mset (slice m Bigger_0 nbigger) + mset (slice m Smaller_0 nsmaller))"
proof -
  let ?bs = "slice m Bigger_0 nbigger" and ?ss = "slice m Smaller_0 nsmaller"
  let ?out = "sort64 (?bs @ ?ss)"
  from assms(2) have d: "fst S \<noteq> fst Bigger_0" "fst S \<noteq> fst Smaller_0"
    and v: "valid m Bigger_0 nbigger" "valid m Smaller_0 nsmaller"
           "valid m S (nbigger + nsmaller)"
    and srt: "sorted64 ?bs" "sorted64 ?ss"
    by (simp_all add: mergeable_def)
  have par: "GB_merge_parallel_1 fuel basecase m S Bigger_0 nbigger Smaller_0 nsmaller =
               Some (Inr (put m S ?out))"
    using assms by (rule GB_merge_parallel_1_run)
  have seq: "GB_merge_sequential_1 m S Bigger_0 nbigger Smaller_0 nsmaller = Inr (put m S ?out)"
    using GB_merge_sequential_1_run [OF d v] merge64_sort64 [OF srt] by simp
  have v': "valid m S (nsmaller + nbigger)" using v(3) by (simp add: add.commute)
  have "sort64 (?ss @ ?bs) = ?out" by (rule sort64_mset_cong) simp
  then have seq': "GB_merge_sequential_1 m S Smaller_0 nsmaller Bigger_0 nbigger =
      Inr (put m S ?out)"
    using GB_merge_sequential_1_run [OF d(2,1) v(2,1) v'] merge64_sort64 [OF srt(2,1)] by simp
  have len: "int (length ?out) = nbigger + nsmaller"
    using v by (simp add: length_slice valid_def)
  have "slice (put m S ?out) S (int (length ?out)) = ?out"
    by (rule slice_put_same) (simp only: len v(3))
  then have rd: "slice (put m S ?out) S (nbigger + nsmaller) = ?out"
    by (simp only: len)
  have "mset ?out = mset ?bs + mset ?ss" by simp
  with par seq seq' len rd show ?thesis
    by (intro conjI exI [of _ ?out]) simp_all
qed

theorem GB_merge_parallel_1_eq_sequential_witness:
  "mergeable (\<lambda>r::nat. if r = 1 then [1, 3, 5, 7] else if r = 2 then [- 2, 4, 6] else [0, 0, 0, 0, 0, 0, 0])
      (0, 0) (1, 0) 4 (2, 0) 3 \<and>
   GB_merge_parallel_1 8 3
      (\<lambda>r::nat. if r = 1 then [1, 3, 5, 7] else if r = 2 then [- 2, 4, 6] else [0, 0, 0, 0, 0, 0, 0])
      (0, 0) (1, 0) 4 (2, 0) 3 =
   Some (GB_merge_sequential_1
      (\<lambda>r::nat. if r = 1 then [1, 3, 5, 7] else if r = 2 then [- 2, 4, 6] else [0, 0, 0, 0, 0, 0, 0])
      (0, 0) (1, 0) 4 (2, 0) 3) \<and>
   (case GB_merge_parallel_1 8 3
      (\<lambda>r::nat. if r = 1 then [1, 3, 5, 7] else if r = 2 then [- 2, 4, 6] else [0, 0, 0, 0, 0, 0, 0])
      (0, 0) (1, 0) 4 (2, 0) 3 of Some (Inr m') \<Rightarrow> m' 0 | _ \<Rightarrow> []) = [- 2, 1, 3, 4, 5, 6, 7]"
proof -
  let ?m = "\<lambda>r::nat. if r = 1 then [1, 3, 5, 7] else if r = 2 then [- 2, 4, 6]
                      else [0, 0, 0, 0, 0, 0, 0 :: int64]"
  have h: "mergeable ?m (0, 0) (1, 0) 4 (2, 0) 3"
    by (simp add: mergeable_def valid_def slice_def sorted64_def word_sle_eq)
  have r: "(case GB_merge_parallel_1 8 3 ?m (0, 0) (1, 0) 4 (2, 0) 3 of
              Some (Inr m') \<Rightarrow> m' 0 | _ \<Rightarrow> []) = [- 2, 1, 3, 4, 5, 6, 7]"
    by code_simp
  from GB_merge_parallel_1_eq_sequential [of 3 ?m "(0, 0)" "(1, 0)" 4 "(2, 0)" 3 8, OF _ h] h r
  show ?thesis by simp
qed

text \<open>
  Claim C7. \<open>GB_merge_select_1\<close> calls the sequential merge when \<open>nleft + nright\<close> is below
  \<open>GB_BASECASE\<close>; otherwise it calls \<open>GB_merge_parallel_1\<close> with the longer run first, the
  two runs swapped when \<open>nright > nleft\<close>. So in each call of \<open>GB_merge_parallel_1\<close> that it
  makes, \<open>nbigger \<ge> nsmaller\<close>. The only calls of \<open>GB_merge_parallel_1\<close> in the program are
  these two, so this covers the recursive calls as well.
\<close>

theorem GB_merge_select_1_dispatch:
  "(nleft + nright < basecase \<longrightarrow>
      GB_merge_select_1 fuel basecase m S Left_0 nleft Right_0 nright =
        Some (GB_merge_sequential_1 m S Left_0 nleft Right_0 nright)) \<and>
   (basecase \<le> nleft + nright \<and> nright \<le> nleft \<longrightarrow>
      GB_merge_select_1 fuel basecase m S Left_0 nleft Right_0 nright =
        GB_merge_parallel_1 fuel basecase m S Left_0 nleft Right_0 nright) \<and>
   (basecase \<le> nleft + nright \<and> nleft < nright \<longrightarrow>
      GB_merge_select_1 fuel basecase m S Left_0 nleft Right_0 nright =
        GB_merge_parallel_1 fuel basecase m S Right_0 nright Left_0 nleft) \<and>
   (basecase \<le> nleft + nright \<longrightarrow>
      (\<exists>Bigger_0 nbigger Smaller_0 nsmaller.
         GB_merge_select_1 fuel basecase m S Left_0 nleft Right_0 nright =
           GB_merge_parallel_1 fuel basecase m S Bigger_0 nbigger Smaller_0 nsmaller \<and>
         nsmaller \<le> nbigger \<and> nbigger = max nleft nright \<and> nsmaller = min nleft nright))"
proof (intro conjI impI)
  assume big: "basecase \<le> nleft + nright"
  show "\<exists>Bigger_0 nbigger Smaller_0 nsmaller.
         GB_merge_select_1 fuel basecase m S Left_0 nleft Right_0 nright =
           GB_merge_parallel_1 fuel basecase m S Bigger_0 nbigger Smaller_0 nsmaller \<and>
         nsmaller \<le> nbigger \<and> nbigger = max nleft nright \<and> nsmaller = min nleft nright"
  proof (cases "nright \<le> nleft")
    case True
    show ?thesis
      apply (rule exI [of _ Left_0], rule exI [of _ nleft],
             rule exI [of _ Right_0], rule exI [of _ nright])
      using big True by (simp add: GB_merge_select_1.simps)
  next
    case False
    show ?thesis
      apply (rule exI [of _ Right_0], rule exI [of _ nright],
             rule exI [of _ Left_0], rule exI [of _ nleft])
      using big False by (simp add: GB_merge_select_1.simps)
  qed
qed (simp_all add: GB_merge_select_1.simps)

theorem GB_merge_select_1_dispatch_witness:
  "GB_merge_select_1 5 4 (\<lambda>r::nat. [1, 2, 3]) (0, 0) (1, 0) 1 (2, 0) 2 =
     Some (GB_merge_sequential_1 (\<lambda>r::nat. [1, 2, 3]) (0, 0) (1, 0) 1 (2, 0) 2) \<and>
   GB_merge_select_1 5 3 (\<lambda>r::nat. [1, 2, 3]) (0, 0) (1, 0) 2 (2, 0) 1 =
     GB_merge_parallel_1 5 3 (\<lambda>r::nat. [1, 2, 3]) (0, 0) (1, 0) 2 (2, 0) 1 \<and>
   GB_merge_select_1 5 3 (\<lambda>r::nat. [1, 2, 3]) (0, 0) (1, 0) 1 (2, 0) 2 =
     GB_merge_parallel_1 5 3 (\<lambda>r::nat. [1, 2, 3]) (0, 0) (2, 0) 2 (1, 0) 1"
  using GB_merge_select_1_dispatch [of 1 2 4 5 "\<lambda>r::nat. [1, 2, 3]" "(0, 0)" "(1, 0)" "(2, 0)"]
    GB_merge_select_1_dispatch [of 2 1 3 5 "\<lambda>r::nat. [1, 2, 3]" "(0, 0)" "(1, 0)" "(2, 0)"]
    GB_merge_select_1_dispatch [of 1 2 3 5 "\<lambda>r::nat. [1, 2, 3]" "(0, 0)" "(1, 0)" "(2, 0)"]
  by simp

text \<open>
  Claim C10. When \<open>nbigger \<ge> nsmaller \<ge> 0\<close> and \<open>nbigger + nsmaller \<ge> GB_BASECASE \<ge> 1\<close>,
  and the two runs lie inside their arrays, the first half of \<open>GB_merge_parallel_1\<close> (the
  pivot read, the binary search and the adjustment) returns without reading out of bounds
  and without failing the \<open>ASSERT\<close>: \<open>nbigger \<ge> 1\<close>, the pivot index \<open>nhalf = nbigger / 2\<close>
  satisfies \<open>0 \<le> nhalf < nbigger\<close>, the split index satisfies \<open>0 \<le> pleft \<le> nsmaller\<close>
  and is 0 for an empty smaller run. The two sub-merges get non-negative lengths that stay
  inside the two runs, and their output ranges \<open>S [0..nhalf+pleft)\<close> and
  \<open>S [nhalf+pleft..nbigger+nsmaller)\<close> are disjoint and cover the output.
\<close>

theorem GB_merge_parallel_1_in_bounds:
  assumes "nsmaller \<le> nbigger" and "0 \<le> nsmaller"
    and "basecase \<le> nbigger + nsmaller" and "1 \<le> basecase"
    and "valid m Bigger_0 nbigger" and "valid m Smaller_0 nsmaller"
  shows "\<exists>nhalf pleft.
           GB_merge_parallel_1_split m Bigger_0 nbigger Smaller_0 nsmaller =
             Some (Inr (nhalf, pleft)) \<and>
           1 \<le> nbigger \<and> nhalf = c_div nbigger 2 \<and> 0 \<le> nhalf \<and> nhalf < nbigger \<and>
           (\<exists>Pivot_0. load m Bigger_0 nhalf = Inr Pivot_0) \<and>
           0 \<le> pleft \<and> pleft \<le> nsmaller \<and> (nsmaller = 0 \<longrightarrow> pleft = 0) \<and>
           0 \<le> nbigger - nhalf \<and> 0 \<le> nsmaller - pleft \<and>
           {0 ..< nhalf + pleft} \<inter>
             {nhalf + pleft ..< nhalf + pleft + ((nbigger - nhalf) + (nsmaller - pleft))} = {} \<and>
           {0 ..< nhalf + pleft} \<union>
             {nhalf + pleft ..< nhalf + pleft + ((nbigger - nhalf) + (nsmaller - pleft))} =
             {0 ..< nbigger + nsmaller}"
proof -
  have nb: "1 \<le> nbigger" using assms(1,3,4) by linarith
  let ?h = "nbigger div 2"
  have h: "c_div nbigger 2 = ?h" "0 \<le> ?h" "?h < nbigger"
    using nb by (simp_all add: c_div_nonneg)
  from GB_merge_parallel_1_split_run [OF assms(5) nb assms(6)]
  obtain k where k: "GB_merge_parallel_1_split m Bigger_0 nbigger Smaller_0 nsmaller =
      Some (Inr (?h, k))" "0 \<le> k" "k \<le> nsmaller"
    by blast
  have ld: "\<exists>Pivot_0. load m Bigger_0 ?h = Inr Pivot_0"
    using load_slice [OF assms(5) h(2,3)] by blast
  have u: "{0 ..< ?h + k} \<union> {?h + k ..< ?h + k + ((nbigger - ?h) + (nsmaller - k))} =
          {0 ..< nbigger + nsmaller}"
    using h k by auto
  have i: "{0 ..< ?h + k} \<inter> {?h + k ..< ?h + k + ((nbigger - ?h) + (nsmaller - k))} = {}"
    by auto
  show ?thesis
    apply (rule exI [of _ ?h], rule exI [of _ k])
    using k h nb ld u i by simp
qed

theorem GB_merge_parallel_1_in_bounds_witness:
  "(1::int) \<le> 2 \<and> (0::int) \<le> 1 \<and> (1::int) \<le> 2 + 1 \<and> (1::int) \<le> 1 \<and>
   valid (\<lambda>r::nat. if r = 1 then [3, 8] else [5]) (1, 0) 2 \<and>
   valid (\<lambda>r::nat. if r = 1 then [3, 8] else [5]) (2, 0) 1 \<and>
   GB_merge_parallel_1_split (\<lambda>r::nat. if r = 1 then [3, 8] else [5]) (1, 0) 2 (2, 0) 1 =
     Some (Inr (1, 1)) \<and>
   load (\<lambda>r::nat. if r = 1 then [3, 8] else [5]) (1, 0) 1 = Inr 8"
proof -
  let ?m = "\<lambda>r::nat. if r = 1 then [3, 8] else [5 :: int64]"
  have v: "valid ?m (1, 0) 2" "valid ?m (2, 0) 1"
    by (simp_all add: valid_def)
  have s: "GB_merge_parallel_1_split ?m (1, 0) 2 (2, 0) 1 = Some (Inr (1, 1))"
    by code_simp
  from GB_merge_parallel_1_in_bounds [of 1 2 1 ?m "(1, 0)" "(2, 0)", OF _ _ _ _ v] v s
  show ?thesis by (simp add: load_def)
qed

section \<open>Recursive sort\<close>

lemma GB_qsort_1a_run:
  assumes "valid m A n"
  shows "GB_qsort_1a m A n = Inr (put m A (sort64 (slice m A n)))"
proof (cases "n \<le> 0")
  case True
  with valid_bounds(2) [OF assms] have "n = 0" by simp
  then show ?thesis by (simp add: GB_qsort_1a_def sort64_def)
next
  case False
  then show ?thesis using assms by (simp add: GB_qsort_1a_def sort64_def)
qed

lemma two_put_read:
  assumes "fst A \<noteq> fst W" and "valid m A (int (length (a @ b @ d)))"
  shows "slice (put (put m A (a @ b @ d)) W w) (ptr_add A (int (length a))) (int (length b)) = b"
proof -
  have "slice (put (put m A (a @ b @ d)) W w) (ptr_add A (int (length a))) (int (length b))
      = slice (put m A (a @ b @ d)) (ptr_add A (int (length a))) (int (length b))"
    using assms(1) by (intro slice_put_other) simp
  then show ?thesis using slice_put_window [OF assms(2)] by simp
qed

lemma two_put_write:
  assumes "fst A \<noteq> fst W" and "valid m A (int (length a))" and "length r = length a"
  shows "put (put (put m A a) W w) A r = put (put m A r) W w"
proof -
  have "put (put (put m A a) W w) A r = put (put (put m A a) A r) W w"
    using assms(1) by (intro put_commute) simp
  then show ?thesis using put_put_same [OF assms(2,3)] by simp
qed

lemma sort_task_step:
  fixes m :: "'r memory"
  assumes d: "fst A \<noteq> fst W"
    and v: "valid m A (int (length as) + j)" "valid m W (int (length as) + j)"
    and l: "length ws = length as" and j: "0 \<le> j" "j < N"
    and sort: "\<And>(m :: 'r memory) A W n.
        fst A \<noteq> fst W \<Longrightarrow> valid m A n \<Longrightarrow> valid m W n \<Longrightarrow> n < N \<Longrightarrow>
        \<exists>ws. length ws = nat n \<and>
          sort_task m A W n = Some (Inr (put (put m A (sort64 (slice m A n))) W ws))"
  shows "\<exists>ws'. length ws' = nat j \<and>
           sort_task (put (put m A as) W ws)
             (ptr_add A (int (length as))) (ptr_add W (int (length as))) j =
           Some (Inr (put (put m A (as @ sort64 (slice m (ptr_add A (int (length as))) j)))
                        W (ws @ ws')))"
proof -
  let ?k = "int (length as)"
  let ?m1 = "put (put m A as) W ws"
  let ?A' = "ptr_add A ?k" and ?W' = "ptr_add W ?k"
  have vA: "valid m A ?k" and vW: "valid m W (int (length ws))"
    using v j(1) l by (simp_all add: valid_def)
  have vW1: "valid (put m A as) W (int (length ws))"
    using vW by (simp add: valid_put [OF vA])
  have valid1: "valid ?m1 q n = valid m q n" for q n
    by (simp add: valid_put [OF vW1] valid_put [OF vA])
  have d': "fst ?A' \<noteq> fst ?W'" using d by simp
  have vA': "valid ?m1 ?A' j" and vW': "valid ?m1 ?W' j"
    unfolding valid1 using v j(1) by (simp_all add: valid_def)
  have rd: "slice ?m1 ?A' j = slice m ?A' j"
  proof -
    have "slice ?m1 ?A' j = slice (put m A as) ?A' j"
      using d by (intro slice_put_other) simp
    also have "\<dots> = slice m ?A' j"
      using vA by (intro slice_put_after) simp_all
    finally show ?thesis .
  qed
  let ?as' = "sort64 (slice m ?A' j)"
  from sort [OF d' vA' vW' j(2)] obtain ws' where
    ws': "length ws' = nat j"
    and run: "sort_task ?m1 ?A' ?W' j = Some (Inr (put (put ?m1 ?A' ?as') ?W' ws'))"
    unfolding rd by blast
  have las': "int (length ?as') = j"
    using vA' j(1) by (simp add: rd [symmetric] length_slice)
  have "put ?m1 ?A' ?as' = put (put (put m A as) ?A' ?as') W ws"
    using d by (intro put_commute) simp
  also have "put (put m A as) ?A' ?as' = put m A (as @ ?as')"
    by (rule put_put_append) (simp only: las' v(1))
  finally have 1: "put ?m1 ?A' ?as' = put (put m A (as @ ?as')) W ws" .
  have vA2: "valid m A (int (length (as @ ?as')))"
    using v(1) las' by simp
  have "valid (put m A (as @ ?as')) W (int (length ws) + int (length ws'))"
    using v(2) l ws' j(1) by (simp add: valid_put [OF vA2])
  then have 2: "put (put (put m A (as @ ?as')) W ws) (ptr_add W (int (length ws))) ws'
            = put (put m A (as @ ?as')) W (ws @ ws')"
    by (rule put_put_append)
  show ?thesis
    using ws' run 1 2 l by auto
qed

lemma GB_mergesort_1_quarters_run:
  fixes m :: "'r memory"
  assumes sort: "\<And>(m :: 'r memory) A W k.
        fst A \<noteq> fst W \<Longrightarrow> valid m A k \<Longrightarrow> valid m W k \<Longrightarrow> k < n \<Longrightarrow>
        \<exists>ws. length ws = nat k \<and>
          sort_task m A W k = Some (Inr (put (put m A (sort64 (slice m A k))) W ws))"
    and merge: "\<And>(m :: 'r memory) S L nl R nr.
        mergeable m S L nl R nr \<Longrightarrow> nl + nr \<le> n \<Longrightarrow>
        merge_task m S L nl R nr =
          Some (Inr (put m S (sort64 (slice m L nl @ slice m R nr))))"
    and d: "fst A \<noteq> fst W" and vA: "valid m A n" and vW: "valid m W n" and big: "2 \<le> n"
  shows "GB_mergesort_1_quarters sort_task merge_task m A W n =
           Some (Inr (put (put m A (sort64 (slice m A n))) W
                  (sort64 (slice m A (n div 2)) @
                   sort64 (slice m (ptr_add A (n div 2)) (n - n div 2)))))"
proof -
  define n12 where "n12 = n div 2"
  define n34 where "n34 = n - n12"
  define n1 where "n1 = n12 div 2"
  define n2 where "n2 = n12 - n1"
  define n3 where "n3 = n34 div 2"
  define n4 where "n4 = n34 - n3"
  have q: "GB_quarters n = (n12, n34, n1, n2, n3, n4)"
    using big by (simp add: GB_quarters_nonneg n12_def n34_def n1_def n2_def n3_def n4_def)
  have hb: "2 * n12 \<le> n \<and> n \<le> 2 * n12 + 1" "2 * n1 \<le> n12 \<and> n12 \<le> 2 * n1 + 1"
    "2 * n3 \<le> n34 \<and> n34 \<le> 2 * n3 + 1"
    unfolding n12_def n1_def n3_def by (rule half_bounds)+
  have nn: "0 \<le> n1" "0 \<le> n2" "0 \<le> n3" "0 \<le> n4" "0 \<le> n12" "0 \<le> n34"
    and lt: "n1 < n" "n2 < n" "n3 < n" "n4 < n"
    and sums: "n1 + n2 = n12" "n3 + n4 = n34" "n12 + n34 = n"
    using hb big unfolding n34_def n2_def n4_def by linarith+
  from valid_bounds [OF vA] have pA: "0 \<le> snd A" by simp
  let ?q1 = "slice m A n1" and ?q2 = "slice m (ptr_add A n1) n2"
  let ?q3 = "slice m (ptr_add A n12) n3" and ?q4 = "slice m (ptr_add A (n12 + n3)) n4"
  let ?a1 = "sort64 ?q1" and ?a2 = "sort64 ?q2" and ?a3 = "sort64 ?q3" and ?a4 = "sort64 ?q4"
  have sl12: "slice m A n12 = ?q1 @ ?q2"
    using slice_append [of A n1 n2 m] pA nn by (simp add: sums)
  have sl34: "slice m (ptr_add A n12) n34 = ?q3 @ ?q4"
    using slice_append [of "ptr_add A n12" n3 n4 m] pA nn by (simp add: sums ptr_add_add)
  have whole: "slice m A n = ?q1 @ ?q2 @ ?q3 @ ?q4"
    using slice_append [of A n12 n34 m] pA nn by (simp add: sums sl12 sl34)
  have la: "int (length ?a1) = n1" "int (length ?a2) = n2" "int (length ?a3) = n3"
    "int (length ?a4) = n4"
    using vA nn sums by (simp_all add: length_slice valid_def)
  have z: "ptr_add p (int (length ([] :: int64 list))) = p" for p :: "'r ptr"
    by simp
  have vpre: "valid m A k" "valid m W k" if "0 \<le> k" "k \<le> n" for k
    using vA vW that by (simp_all add: valid_def)
  \<comment> \<open>the four sorts\<close>
  have "\<exists>ws'. length ws' = nat n1 \<and>
          sort_task (put (put m A []) W []) (ptr_add A (int (length ([] :: int64 list))))
            (ptr_add W (int (length ([] :: int64 list)))) n1 =
          Some (Inr (put (put m A ([] @ sort64 (slice m (ptr_add A (int (length ([] :: int64 list)))) n1)))
                  W ([] @ ws')))"
  proof (rule sort_task_step [OF d _ _ _ nn(1) lt(1) sort])
    show "valid m A (int (length ([] :: int64 list)) + n1)"
      "valid m W (int (length ([] :: int64 list)) + n1)"
      using nn lt by (simp_all add: vpre)
  qed simp_all
  then obtain w1 where w1: "length w1 = nat n1"
    and s1: "sort_task m A W n1 = Some (Inr (put (put m A ?a1) W w1))"
    by auto
  have "\<exists>ws'. length ws' = nat n2 \<and>
          sort_task (put (put m A ?a1) W w1) (ptr_add A (int (length ?a1)))
            (ptr_add W (int (length ?a1))) n2 =
          Some (Inr (put (put m A (?a1 @ sort64 (slice m (ptr_add A (int (length ?a1))) n2)))
                  W (w1 @ ws')))"
  proof (rule sort_task_step [OF d _ _ _ nn(2) lt(2) sort])
    show "valid m A (int (length ?a1) + n2)" "valid m W (int (length ?a1) + n2)"
      unfolding la(1) using nn sums by (intro vpre; linarith)+
    show "length w1 = length ?a1" using w1 la(1) by linarith
  qed
  then obtain w2 where w2: "length w2 = nat n2"
    and s2: "sort_task (put (put m A ?a1) W w1) (ptr_add A n1) (ptr_add W n1) n2 =
               Some (Inr (put (put m A (?a1 @ ?a2)) W (w1 @ w2)))"
    unfolding la(1) by blast
  have la12: "int (length (?a1 @ ?a2)) = n12" using la sums by simp
  have "\<exists>ws'. length ws' = nat n3 \<and>
          sort_task (put (put m A (?a1 @ ?a2)) W (w1 @ w2)) (ptr_add A (int (length (?a1 @ ?a2))))
            (ptr_add W (int (length (?a1 @ ?a2)))) n3 =
          Some (Inr (put (put m A ((?a1 @ ?a2) @ sort64 (slice m (ptr_add A (int (length (?a1 @ ?a2)))) n3)))
                  W ((w1 @ w2) @ ws')))"
  proof (rule sort_task_step [OF d _ _ _ nn(3) lt(3) sort])
    show "valid m A (int (length (?a1 @ ?a2)) + n3)" "valid m W (int (length (?a1 @ ?a2)) + n3)"
      unfolding la12 using nn sums by (intro vpre; linarith)+
    show "length (w1 @ w2) = length (?a1 @ ?a2)" using w1 w2 la(1,2) by simp
  qed
  then obtain w3 where w3: "length w3 = nat n3"
    and s3: "sort_task (put (put m A (?a1 @ ?a2)) W (w1 @ w2)) (ptr_add A n12) (ptr_add W n12) n3 =
               Some (Inr (put (put m A (?a1 @ ?a2 @ ?a3)) W (w1 @ w2 @ w3)))"
    unfolding la12 by auto
  have la123: "int (length (?a1 @ ?a2 @ ?a3)) = n12 + n3" using la sums by simp
  have "\<exists>ws'. length ws' = nat n4 \<and>
          sort_task (put (put m A (?a1 @ ?a2 @ ?a3)) W (w1 @ w2 @ w3))
            (ptr_add A (int (length (?a1 @ ?a2 @ ?a3))))
            (ptr_add W (int (length (?a1 @ ?a2 @ ?a3)))) n4 =
          Some (Inr (put (put m A ((?a1 @ ?a2 @ ?a3) @
                          sort64 (slice m (ptr_add A (int (length (?a1 @ ?a2 @ ?a3)))) n4)))
                  W ((w1 @ w2 @ w3) @ ws')))"
  proof (rule sort_task_step [OF d _ _ _ nn(4) lt(4) sort])
    show "valid m A (int (length (?a1 @ ?a2 @ ?a3)) + n4)"
      "valid m W (int (length (?a1 @ ?a2 @ ?a3)) + n4)"
      unfolding la123 using nn sums by (intro vpre; linarith)+
    show "length (w1 @ w2 @ w3) = length (?a1 @ ?a2 @ ?a3)"
      using w1 w2 w3 la(1,2,3) by simp
  qed
  then obtain w4 where w4: "length w4 = nat n4"
    and s4: "sort_task (put (put m A (?a1 @ ?a2 @ ?a3)) W (w1 @ w2 @ w3))
               (ptr_add A (n12 + n3)) (ptr_add W (n12 + n3)) n4 =
               Some (Inr (put (put m A (?a1 @ ?a2 @ ?a3 @ ?a4)) W (w1 @ w2 @ w3 @ w4)))"
    unfolding la123 by auto
  let ?a = "?a1 @ ?a2 @ ?a3 @ ?a4"
  let ?mA = "put m A ?a"
  have la_all: "int (length ?a) = n" using la sums by simp
  have vAa: "valid m A (int (length ?a))" using vA la_all by simp
  have validA: "valid ?mA p k = valid m p k" for p k
    by (rule valid_put [OF vAa])
  have lw: "int (length w1) = n1" "int (length w2) = n2" "int (length w3) = n3"
    "int (length w4) = n4"
    using w1 w2 w3 w4 nn by simp_all
  have valid2: "valid (put ?mA W w) p k = valid m p k" if "int (length w) = n" for w p k
  proof -
    have "valid ?mA W (int (length w))" using vW that by (simp add: validA)
    from valid_put [OF this] show ?thesis by (simp add: validA)
  qed
  \<comment> \<open>reading the sorted quarters\<close>
  have rdA: "slice (put ?mA W w) A n1 = ?a1" "slice (put ?mA W w) (ptr_add A n1) n2 = ?a2"
    "slice (put ?mA W w) (ptr_add A n12) n3 = ?a3"
    "slice (put ?mA W w) (ptr_add A (n12 + n3)) n4 = ?a4" for w
  proof -
    have "valid m A (int (length ([] @ ?a1 @ (?a2 @ ?a3 @ ?a4))))" using vAa by simp
    from two_put_read [OF d this, of w] show "slice (put ?mA W w) A n1 = ?a1"
      by (simp only: append_Nil z la(1))
    have "valid m A (int (length (?a1 @ ?a2 @ (?a3 @ ?a4))))" using vAa by simp
    from two_put_read [OF d this, of w] show "slice (put ?mA W w) (ptr_add A n1) n2 = ?a2"
      by (simp only: la(1,2))
    have "valid m A (int (length ((?a1 @ ?a2) @ ?a3 @ ?a4)))" using vAa by simp
    from two_put_read [OF d this, of w] show "slice (put ?mA W w) (ptr_add A n12) n3 = ?a3"
      by (simp only: la12 la(3) append_assoc)
    have "valid m A (int (length ((?a1 @ ?a2 @ ?a3) @ ?a4 @ [])))" using vAa by simp
    from two_put_read [OF d this, of w]
    show "slice (put ?mA W w) (ptr_add A (n12 + n3)) n4 = ?a4"
      by (simp only: la123 la(4) append_assoc append_Nil2)
  qed
  \<comment> \<open>the two merges into W\<close>
  let ?h12 = "sort64 (?a1 @ ?a2)" and ?h34 = "sort64 (?a3 @ ?a4)"
  let ?m4 = "put ?mA W (w1 @ w2 @ w3 @ w4)"
  have lw_all: "int (length (w1 @ w2 @ w3 @ w4)) = n" using lw sums by simp
  have mg1: "mergeable ?m4 W A n1 (ptr_add A n1) n2"
    using d vA vW nn sums
    by (simp add: mergeable_def valid2 [OF lw_all] rdA) (simp add: valid_def)
  from merge [OF mg1] sums nn
  have t1: "merge_task ?m4 W A n1 (ptr_add A n1) n2 = Some (Inr (put ?m4 W ?h12))"
    by (simp add: rdA)
  have lh: "int (length ?h12) = n12" "int (length ?h34) = n34"
    using la sums by simp_all
  have m5: "put ?m4 W ?h12 = put ?mA W (?h12 @ w3 @ w4)"
  proof -
    have "valid ?mA W (int (length ([] @ (w1 @ w2) @ (w3 @ w4))))"
      using vW lw_all by (simp add: validA)
    moreover have "length ?h12 = length (w1 @ w2)"
      using lh(1) lw sums by simp
    ultimately have "put (put ?mA W ([] @ (w1 @ w2) @ (w3 @ w4)))
        (ptr_add W (int (length ([] :: int64 list)))) ?h12 = put ?mA W ([] @ ?h12 @ (w3 @ w4))"
      by (rule put_put_window)
    then show ?thesis
      by (simp only: append_Nil append_assoc z)
  qed
  let ?m5 = "put ?mA W (?h12 @ w3 @ w4)"
  have lw5: "int (length (?h12 @ w3 @ w4)) = n" using lh lw sums by simp
  have mg2: "mergeable ?m5 (ptr_add W n12) (ptr_add A n12) n3 (ptr_add A (n12 + n3)) n4"
    using d vA vW nn sums
    by (simp add: mergeable_def valid2 [OF lw5] rdA) (simp add: valid_def)
  from merge [OF mg2] sums nn
  have t2: "merge_task ?m5 (ptr_add W n12) (ptr_add A n12) n3 (ptr_add A (n12 + n3)) n4 =
              Some (Inr (put ?m5 (ptr_add W n12) ?h34))"
    by (simp add: rdA)
  have m6: "put ?m5 (ptr_add W n12) ?h34 = put ?mA W (?h12 @ ?h34)"
  proof -
    have "valid ?mA W (int (length (?h12 @ (w3 @ w4) @ [])))"
      using vW lw5 by (simp add: validA)
    moreover have "length ?h34 = length (w3 @ w4)"
      using lh(2) lw sums by simp
    ultimately have "put (put ?mA W (?h12 @ (w3 @ w4) @ []))
        (ptr_add W (int (length ?h12))) ?h34 = put ?mA W (?h12 @ ?h34 @ [])"
      by (rule put_put_window)
    then show ?thesis
      by (simp only: append_Nil2 append_assoc lh(1))
  qed
  \<comment> \<open>the final merge into A\<close>
  let ?m6 = "put ?mA W (?h12 @ ?h34)"
  have lw6: "int (length (?h12 @ ?h34)) = n" using lh sums by simp
  have vW6: "valid ?mA W (int (length (?h12 @ ?h34)))"
    using vW lw6 by (simp add: validA)
  have rdW: "slice ?m6 W n12 = ?h12" "slice ?m6 (ptr_add W n12) n34 = ?h34"
  proof -
    have "valid ?mA W (int (length ([] @ ?h12 @ ?h34)))" using vW6 by simp
    from slice_put_window [OF this] show "slice ?m6 W n12 = ?h12"
      by (simp only: append_Nil z lh(1))
    have "valid ?mA W (int (length (?h12 @ ?h34 @ [])))" using vW6 by simp
    from slice_put_window [OF this] show "slice ?m6 (ptr_add W n12) n34 = ?h34"
      by (simp only: append_Nil2 lh)
  qed
  have mg3: "mergeable ?m6 A W n12 (ptr_add W n12) n34"
    using d vA vW nn sums
    by (simp add: mergeable_def valid2 [OF lw6] rdW) (simp add: valid_def)
  from merge [OF mg3] sums
  have t3: "merge_task ?m6 A W n12 (ptr_add W n12) n34 =
              Some (Inr (put ?m6 A (sort64 (?h12 @ ?h34))))"
    by (simp add: rdW)
  have res: "sort64 (?h12 @ ?h34) = sort64 (slice m A n)"
    by (rule sort64_mset_cong) (simp add: whole)
  have m7: "put ?m6 A (sort64 (slice m A n)) = put (put m A (sort64 (slice m A n))) W (?h12 @ ?h34)"
    using vAa la_all vA by (intro two_put_write [OF d]) (simp_all add: length_slice)
  have halves: "?h12 = sort64 (slice m A n12)" "?h34 = sort64 (slice m (ptr_add A n12) n34)"
    by (rule sort64_mset_cong, simp add: sl12 sl34)+
  have "GB_mergesort_1_quarters sort_task merge_task m A W n =
          Some (Inr (put (put m A (sort64 (slice m A n))) W (?h12 @ ?h34)))"
    by (simp add: GB_mergesort_1_quarters_def q Let_def s1 s2 sums s3 s4 t1 m5 t2 m6 t3 res m7)
  then show ?thesis
    by (simp only: halves n12_def [symmetric] n34_def [symmetric])
qed

lemma put_workspace_unchanged:
  assumes "fst A \<noteq> fst W" and "valid m A (int (length xs))" and "valid m W n"
  shows "put (put m A xs) W (slice m W n) = put m A xs"
proof -
  have "slice (put m A xs) W n = slice m W n"
    using assms(1) by (intro slice_put_other) simp
  moreover have "valid (put m A xs) W n"
    using assms(3) by (simp add: valid_put [OF assms(2)])
  ultimately show ?thesis
    using put_slice_same [of "put m A xs" W n] by simp
qed

lemma GB_mergesort_1_run:
  fixes m :: "'r memory"
  assumes bc: "3 \<le> bc"
  shows "fst A \<noteq> fst W \<Longrightarrow> valid m A n \<Longrightarrow> valid m W n \<Longrightarrow> n + 1 < int f \<Longrightarrow>
         \<exists>ws. length ws = nat n \<and>
           GB_mergesort_1 f bc m A W n =
             Some (Inr (put (put m A (sort64 (slice m A n))) W ws))"
proof (induction f arbitrary: m A W n)
  case 0
  from valid_bounds(2) [OF "0.prems"(2)] "0.prems"(4) show ?case by simp
next
  case (Suc f)
  note d = Suc.prems(1) and vA = Suc.prems(2) and vW = Suc.prems(3)
  from valid_bounds(2) [OF vA] have n0: "0 \<le> n" .
  let ?s = "sort64 (slice m A n)"
  have ls: "int (length ?s) = n" using vA n0 by (simp add: length_slice)
  show ?case
  proof (cases "n \<le> bc")
    case True
    have "put (put m A ?s) W (slice m W n) = put m A ?s"
      using d _ vW by (rule put_workspace_unchanged) (simp only: ls vA)
    moreover have "length (slice m W n) = nat n" using vW by (rule length_slice)
    ultimately show ?thesis
      using True GB_qsort_1a_run [OF vA] by (intro exI [of _ "slice m W n"]) simp
  next
    case False
    have sort: "\<exists>ws. length ws = nat k \<and>
          GB_mergesort_1 f bc m' A' W' k =
            Some (Inr (put (put m' A' (sort64 (slice m' A' k))) W' ws))"
      if "fst A' \<noteq> fst W'" "valid m' A' k" "valid m' W' k" "k < n"
      for m' :: "'r memory" and A' W' k
      using that(1-3) by (rule Suc.IH) (use that(4) Suc.prems(4) in linarith)
    have merge: "GB_merge_select_1 f bc m' S L nl R nr =
          Some (Inr (put m' S (sort64 (slice m' L nl @ slice m' R nr))))"
      if "mergeable m' S L nl R nr" "nl + nr \<le> n" for m' :: "'r memory" and S L nl R nr
      using bc that(1) by (rule GB_merge_select_1_run) (use that(2) Suc.prems(4) in linarith)
    have "2 \<le> n" using False bc by linarith
    from GB_mergesort_1_quarters_run [where sort_task = "GB_mergesort_1 f bc"
        and merge_task = "GB_merge_select_1 f bc" and n = n, OF sort merge d vA vW this]
    have "GB_mergesort_1 (Suc f) bc m A W n =
        Some (Inr (put (put m A ?s) W
          (sort64 (slice m A (n div 2)) @ sort64 (slice m (ptr_add A (n div 2)) (n - n div 2)))))"
      using False by simp
    moreover have "length (sort64 (slice m A (n div 2)) @
        sort64 (slice m (ptr_add A (n div 2)) (n - n div 2))) = nat n"
    proof -
      have h: "0 \<le> n div 2" "n div 2 \<le> n" using n0 by simp_all
      have "valid m A (n div 2)" "valid m (ptr_add A (n div 2)) (n - n div 2)"
        using vA h by (simp_all add: valid_def)
      then show ?thesis using h by (simp add: length_slice)
    qed
    ultimately show ?thesis by blast
  qed
qed

section \<open>Claims about the sort\<close>

lemma sorted_result:
  assumes "fst A \<noteq> fst W" and "valid m A n"
  shows "slice (put (put m A (sort64 (slice m A n))) W ws) A n = sort64 (slice m A n)"
proof -
  let ?s = "sort64 (slice m A n)"
  from valid_bounds(2) [OF assms(2)] have ls: "int (length ?s) = n"
    using assms(2) by (simp add: length_slice)
  have "slice (put (put m A ?s) W ws) A n = slice (put m A ?s) A n"
    using assms(1) by (intro slice_put_other) simp
  moreover have "slice (put m A ?s) A (int (length ?s)) = ?s"
    by (rule slice_put_same) (simp only: ls assms(2))
  ultimately show ?thesis by (simp only: ls)
qed

lemma GB_msort_1_run:
  fixes m :: "'r memory"
  assumes "3 \<le> basecase" and "fst A_0 \<noteq> fst W_0" and "valid m A_0 n" and "valid m W_0 n"
    and "n + 1 < int fuel"
  shows "\<exists>m'. GB_msort_1 fuel basecase msort_nthreads omp_num_threads m A_0 W_0 n nthreads =
                Some (Inr m') \<and>
              slice m' A_0 n = sort64 (slice m A_0 n)"
proof (cases "msort_nthreads nthreads > 1")
  case True
  from GB_mergesort_1_run [OF assms] obtain ws where
    "GB_mergesort_1 fuel basecase m A_0 W_0 n =
       Some (Inr (put (put m A_0 (sort64 (slice m A_0 n))) W_0 ws))"
    by blast
  then show ?thesis
    using True sorted_result [OF assms(2,3)] by (simp add: GB_msort_1_def)
next
  case False
  have "GB_msort_1 fuel basecase msort_nthreads omp_num_threads m A_0 W_0 n nthreads =
          Some (Inr (put (put m A_0 (sort64 (slice m A_0 n))) W_0 []))"
    using False GB_qsort_1a_run [OF assms(3)] by (simp add: GB_msort_1_def)
  then show ?thesis
    using sorted_result [OF assms(2,3), of "[]"] by simp
qed

text \<open>
  Claim C1. For every array \<open>A\<close> of \<open>n \<ge> 0\<close> elements and every workspace \<open>W\<close> of \<open>n\<close>
  elements in another array, and for every thread count (whatever \<open>GB_MSORT_NTHREADS\<close>
  makes of it, inside a parallel region or not), \<open>GB_msort_1\<close> returns, and afterwards
  \<open>A [0..n)\<close> is in non-decreasing order and holds the same multiset of values, so the
  same number of them, as before. The base-case sort is the one the spec describes, the
  threshold \<open>GB_BASECASE\<close> is at least 3, and the fuel exceeds \<open>n + 1\<close>.
\<close>

theorem GB_msort_1_sorts:
  fixes m :: "'r memory"
  assumes "3 \<le> basecase" and "fst A_0 \<noteq> fst W_0" and "valid m A_0 n" and "valid m W_0 n"
    and "n + 1 < int fuel"
  shows "\<exists>m'. GB_msort_1 fuel basecase msort_nthreads omp_num_threads m A_0 W_0 n nthreads =
                Some (Inr m') \<and>
              sorted64 (slice m' A_0 n) \<and>
              mset (slice m' A_0 n) = mset (slice m A_0 n) \<and>
              length (slice m' A_0 n) = length (slice m A_0 n)"
proof -
  from GB_msort_1_run [OF assms] obtain m' where
    "GB_msort_1 fuel basecase msort_nthreads omp_num_threads m A_0 W_0 n nthreads = Some (Inr m')"
    "slice m' A_0 n = sort64 (slice m A_0 n)"
    by blast
  then show ?thesis by simp
qed

theorem GB_msort_1_sorts_witness:
  "fst (0::nat, 0::int) \<noteq> fst (1::nat, 0::int) \<and>
   valid (\<lambda>r::nat. if r = 0 then [5, 3, - 1, 4, 2, 9, 7] else [0, 0, 0, 0, 0, 0, 0]) (0, 0) 7 \<and>
   valid (\<lambda>r::nat. if r = 0 then [5, 3, - 1, 4, 2, 9, 7] else [0, 0, 0, 0, 0, 0, 0]) (1, 0) 7 \<and>
   (case GB_msort_1 9 3 (\<lambda>t. t) 1
           (\<lambda>r::nat. if r = 0 then [5, 3, - 1, 4, 2, 9, 7] else [0, 0, 0, 0, 0, 0, 0])
           (0, 0) (1, 0) 7 4 of
      Some (Inr m') \<Rightarrow> slice m' (0, 0) 7 | _ \<Rightarrow> []) = [- 1, 2, 3, 4, 5, 7, 9] \<and>
   (\<exists>m'. GB_msort_1 9 3 (\<lambda>t. t) 1
           (\<lambda>r::nat. if r = 0 then [5, 3, - 1, 4, 2, 9, 7] else [0, 0, 0, 0, 0, 0, 0])
           (0, 0) (1, 0) 7 4 = Some (Inr m') \<and> sorted64 (slice m' (0, 0) 7))"
proof -
  let ?m = "\<lambda>r::nat. if r = 0 then [5, 3, - 1, 4, 2, 9, 7] else [0, 0, 0, 0, 0, 0, 0 :: int64]"
  have v: "valid ?m (0, 0) 7" "valid ?m (1, 0) 7"
    by (simp_all add: valid_def)
  have r: "(case GB_msort_1 9 3 (\<lambda>t. t) 1 ?m (0, 0) (1, 0) 7 4 of
      Some (Inr m') \<Rightarrow> slice m' (0, 0) 7 | _ \<Rightarrow> []) = [- 1, 2, 3, 4, 5, 7, 9]"
    by code_simp
  have "\<exists>m'. GB_msort_1 9 3 (\<lambda>t. t) 1 ?m (0, 0) (1, 0) 7 4 = Some (Inr m') \<and>
          sorted64 (slice m' (0, 0) 7)"
    using GB_msort_1_sorts [of 3 "(0, 0)" "(1, 0)" ?m 7 9 "\<lambda>t. t" 1 4] v by auto
  with v r show ?thesis by simp
qed

text \<open>
  Claim C8. When the normalised thread count is 1 or less, \<open>GB_msort_1\<close> is exactly one
  call of the base-case sort \<open>GB_qsort_1a\<close> on \<open>A\<close>, whatever the fuel: it returns, \<open>A [0..n)\<close>
  is sorted in place, and the array that holds the workspace \<open>W\<close> is left as it was, element
  for element. The base-case sort is the one the spec describes, and \<open>W\<close> lies in another
  array than \<open>A\<close>.
\<close>

theorem GB_msort_1_single_thread:
  fixes m :: "'r memory"
  assumes "msort_nthreads nthreads \<le> 1" and "fst A_0 \<noteq> fst W_0" and "valid m A_0 n"
  shows "GB_msort_1 fuel basecase msort_nthreads omp_num_threads m A_0 W_0 n nthreads =
           Some (GB_qsort_1a m A_0 n) \<and>
         (\<exists>m'. GB_qsort_1a m A_0 n = Inr m' \<and>
            m' (fst W_0) = m (fst W_0) \<and>
            slice m' A_0 n = sort64 (slice m A_0 n) \<and>
            sorted64 (slice m' A_0 n) \<and> mset (slice m' A_0 n) = mset (slice m A_0 n))"
proof -
  let ?s = "sort64 (slice m A_0 n)"
  have 1: "GB_msort_1 fuel basecase msort_nthreads omp_num_threads m A_0 W_0 n nthreads =
          Some (GB_qsort_1a m A_0 n)"
    using assms(1) by (simp add: GB_msort_1_def)
  have 2: "GB_qsort_1a m A_0 n = Inr (put m A_0 ?s)"
    using assms(3) by (rule GB_qsort_1a_run)
  have 3: "put m A_0 ?s (fst W_0) = m (fst W_0)"
    using assms(2) by simp
  have 4: "slice (put m A_0 ?s) A_0 n = ?s"
    using sorted_result [OF assms(2,3), of "[]"] by simp
  show ?thesis
    using 1 2 3 4 by simp
qed

theorem GB_msort_1_single_thread_witness:
  "(\<lambda>t::int. t) 1 \<le> 1 \<and> fst (0::nat, 0::int) \<noteq> fst (1::nat, 0::int) \<and>
   valid (\<lambda>r::nat. if r = 0 then [5, 3, 1, 4, 2] else [7, 7, 7, 7, 7]) (0, 0) 5 \<and>
   GB_msort_1 0 65536 (\<lambda>t. t) 1
     (\<lambda>r::nat. if r = 0 then [5, 3, 1, 4, 2] else [7, 7, 7, 7, 7]) (0, 0) (1, 0) 5 1 =
   Some (GB_qsort_1a (\<lambda>r::nat. if r = 0 then [5, 3, 1, 4, 2] else [7, 7, 7, 7, 7]) (0, 0) 5) \<and>
   (case GB_qsort_1a (\<lambda>r::nat. if r = 0 then [5, 3, 1, 4, 2] else [7, 7, 7, 7, 7]) (0, 0) 5 of
      Inr m' \<Rightarrow> (m' 0, m' 1) | Inl e \<Rightarrow> ([], [])) = ([1, 2, 3, 4, 5], [7, 7, 7, 7, 7])"
proof -
  let ?m = "\<lambda>r::nat. if r = 0 then [5, 3, 1, 4, 2] else [7, 7, 7, 7, 7 :: int64]"
  have v: "valid ?m (0, 0) 5" by (simp add: valid_def)
  have r: "(case GB_qsort_1a ?m (0, 0) 5 of
      Inr m' \<Rightarrow> (m' 0, m' 1) | Inl e \<Rightarrow> ([], [])) = ([1, 2, 3, 4, 5], [7, 7, 7, 7, 7])"
    by code_simp
  from GB_msort_1_single_thread [of "\<lambda>t. t" 1 "(0, 0)" "(1, 0)" ?m 5 0 65536 1] v r
  show ?thesis by simp
qed

text \<open>
  Claim C9. For any two requested thread counts, and whether or not the caller is already
  inside a parallel region, the two calls of \<open>GB_msort_1\<close> on the same input return and leave
  the same contents in \<open>A [0..n)\<close>: the ascending arrangement of the input values, a function
  of the input alone. In the model the tasks of a group run in program order; they write
  disjoint ranges, and the final contents of \<open>A\<close> are determined by the input whichever
  path is taken. The assumptions are those of claim C1.
\<close>

theorem GB_msort_1_thread_independent:
  fixes m :: "'r memory"
  assumes "3 \<le> basecase" and "fst A_0 \<noteq> fst W_0" and "valid m A_0 n" and "valid m W_0 n"
    and "n + 1 < int fuel"
  shows "\<exists>m1 m2.
           GB_msort_1 fuel basecase msort_nthreads omp1 m A_0 W_0 n nthreads1 = Some (Inr m1) \<and>
           GB_msort_1 fuel basecase msort_nthreads omp2 m A_0 W_0 n nthreads2 = Some (Inr m2) \<and>
           slice m1 A_0 n = slice m2 A_0 n \<and> slice m1 A_0 n = sort64 (slice m A_0 n)"
proof -
  from GB_msort_1_run [OF assms, of msort_nthreads omp1 nthreads1] obtain m1 where
    1: "GB_msort_1 fuel basecase msort_nthreads omp1 m A_0 W_0 n nthreads1 = Some (Inr m1)"
       "slice m1 A_0 n = sort64 (slice m A_0 n)"
    by blast
  from GB_msort_1_run [OF assms, of msort_nthreads omp2 nthreads2] obtain m2 where
    2: "GB_msort_1 fuel basecase msort_nthreads omp2 m A_0 W_0 n nthreads2 = Some (Inr m2)"
       "slice m2 A_0 n = sort64 (slice m A_0 n)"
    by blast
  from 1 2 show ?thesis by simp
qed

theorem GB_msort_1_thread_independent_witness:
  "valid (\<lambda>r::nat. if r = 0 then [8, - 3, 5, 1, 9, 2, 7, 4] else [0, 0, 0, 0, 0, 0, 0, 0]) (0, 0) 8 \<and>
   valid (\<lambda>r::nat. if r = 0 then [8, - 3, 5, 1, 9, 2, 7, 4] else [0, 0, 0, 0, 0, 0, 0, 0]) (1, 0) 8 \<and>
   (case GB_msort_1 10 3 (\<lambda>t. t) 1
           (\<lambda>r::nat. if r = 0 then [8, - 3, 5, 1, 9, 2, 7, 4] else [0, 0, 0, 0, 0, 0, 0, 0])
           (0, 0) (1, 0) 8 4 of
      Some (Inr m') \<Rightarrow> slice m' (0, 0) 8 | _ \<Rightarrow> []) = [- 3, 1, 2, 4, 5, 7, 8, 9] \<and>
   (case GB_msort_1 10 3 (\<lambda>t. t) 1
           (\<lambda>r::nat. if r = 0 then [8, - 3, 5, 1, 9, 2, 7, 4] else [0, 0, 0, 0, 0, 0, 0, 0])
           (0, 0) (1, 0) 8 1 of
      Some (Inr m') \<Rightarrow> slice m' (0, 0) 8 | _ \<Rightarrow> []) = [- 3, 1, 2, 4, 5, 7, 8, 9] \<and>
   (\<exists>m1 m2.
      GB_msort_1 10 3 (\<lambda>t. t) 1
        (\<lambda>r::nat. if r = 0 then [8, - 3, 5, 1, 9, 2, 7, 4] else [0, 0, 0, 0, 0, 0, 0, 0])
        (0, 0) (1, 0) 8 4 = Some (Inr m1) \<and>
      GB_msort_1 10 3 (\<lambda>t. t) 1
        (\<lambda>r::nat. if r = 0 then [8, - 3, 5, 1, 9, 2, 7, 4] else [0, 0, 0, 0, 0, 0, 0, 0])
        (0, 0) (1, 0) 8 1 = Some (Inr m2) \<and>
      slice m1 (0, 0) 8 = slice m2 (0, 0) 8)"
proof -
  let ?m = "\<lambda>r::nat. if r = 0 then [8, - 3, 5, 1, 9, 2, 7, 4]
                      else [0, 0, 0, 0, 0, 0, 0, 0 :: int64]"
  have v: "valid ?m (0, 0) 8" "valid ?m (1, 0) 8"
    by (simp_all add: valid_def)
  have r: "(case GB_msort_1 10 3 (\<lambda>t. t) 1 ?m (0, 0) (1, 0) 8 4 of
      Some (Inr m') \<Rightarrow> slice m' (0, 0) 8 | _ \<Rightarrow> []) = [- 3, 1, 2, 4, 5, 7, 8, 9]"
    "(case GB_msort_1 10 3 (\<lambda>t. t) 1 ?m (0, 0) (1, 0) 8 1 of
      Some (Inr m') \<Rightarrow> slice m' (0, 0) 8 | _ \<Rightarrow> []) = [- 3, 1, 2, 4, 5, 7, 8, 9]"
    by code_simp+
  have "\<exists>m1 m2.
      GB_msort_1 10 3 (\<lambda>t. t) 1 ?m (0, 0) (1, 0) 8 4 = Some (Inr m1) \<and>
      GB_msort_1 10 3 (\<lambda>t. t) 1 ?m (0, 0) (1, 0) 8 1 = Some (Inr m2) \<and>
      slice m1 (0, 0) 8 = slice m2 (0, 0) 8"
    using GB_msort_1_thread_independent [of 3 "(0, 0)" "(1, 0)" ?m 8 10 "\<lambda>t. t" 1 4 1 1] v
    by auto
  with v r show ?thesis by simp
qed

text \<open>
  Claim C6, as stated, fails at \<open>n = GB_BASECASE\<close>: the test of \<open>GB_mergesort_1\<close> is
  \<open>n <= GB_BASECASE\<close>, so an array of exactly \<open>GB_BASECASE\<close> elements, which is not below the
  threshold, is still handed to \<open>GB_qsort_1a\<close>, and the workspace is not written; the
  four-quarter decomposition would have left the two merged halves in it.
\<close>

theorem GB_mergesort_1_threshold_counterexample:
  "\<not> (4::int) < 4 \<and>
   GB_mergesort_1 6 4 (\<lambda>r::nat. if r = 0 then [4, 3, 2, 1] else [0, 0, 0, 0]) (0, 0) (1, 0) 4 =
     Some (GB_qsort_1a (\<lambda>r::nat. if r = 0 then [4, 3, 2, 1] else [0, 0, 0, 0]) (0, 0) 4) \<and>
   (case GB_mergesort_1 6 4 (\<lambda>r::nat. if r = 0 then [4, 3, 2, 1] else [0, 0, 0, 0])
           (0, 0) (1, 0) 4 of
      Some (Inr m') \<Rightarrow> (m' 0, m' 1) | _ \<Rightarrow> ([], [])) = ([1, 2, 3, 4], [0, 0, 0, 0]) \<and>
   (case GB_mergesort_1_quarters (GB_mergesort_1 5 4) (GB_merge_select_1 5 4)
           (\<lambda>r::nat. if r = 0 then [4, 3, 2, 1] else [0, 0, 0, 0]) (0, 0) (1, 0) 4 of
      Some (Inr m') \<Rightarrow> (m' 0, m' 1) | _ \<Rightarrow> ([], [])) = ([1, 2, 3, 4], [3, 4, 1, 2])"
proof -
  let ?m = "\<lambda>r::nat. if r = 0 then [4, 3, 2, 1] else [0, 0, 0, 0 :: int64]"
  have 1: "GB_mergesort_1 6 4 ?m (0, 0) (1, 0) 4 = Some (GB_qsort_1a ?m (0, 0) 4)"
    by (simp add: eval_nat_numeral)
  have 2: "(case GB_mergesort_1 6 4 ?m (0, 0) (1, 0) 4 of
      Some (Inr m') \<Rightarrow> (m' 0, m' 1) | _ \<Rightarrow> ([], [])) = ([1, 2, 3, 4], [0, 0, 0, 0])"
    by code_simp
  have 3: "(case GB_mergesort_1_quarters (GB_mergesort_1 5 4) (GB_merge_select_1 5 4)
           ?m (0, 0) (1, 0) 4 of
      Some (Inr m') \<Rightarrow> (m' 0, m' 1) | _ \<Rightarrow> ([], [])) = ([1, 2, 3, 4], [3, 4, 1, 2])"
    by code_simp
  from 1 2 3 show ?thesis by simp
qed

text \<open>
  Claim C6, amended. \<open>GB_mergesort_1\<close> delegates entirely to \<open>GB_qsort_1a\<close> exactly when
  \<open>n \<le> GB_BASECASE\<close>, the threshold included, and then leaves the workspace untouched.
  When \<open>n > GB_BASECASE\<close> it performs the four-quarter decomposition: the four recursive
  sorts, the two pair-merges into \<open>W\<close> and the final merge back into \<open>A\<close>. It returns with
  \<open>A [0..n)\<close> sorted, and the two halves of \<open>W\<close> hold what the pair-merges wrote there, the
  sorted first half \<open>A [0..n12)\<close> and the sorted second half \<open>A [n12..n)\<close> of the input, with
  \<open>n12 = n / 2\<close>.
\<close>

theorem GB_mergesort_1_cases:
  fixes m :: "'r memory"
  assumes "3 \<le> basecase" and "fst A_0 \<noteq> fst W_0" and "valid m A_0 n" and "valid m W_0 n"
    and "n < int fuel"
  shows "(n \<le> basecase \<longrightarrow>
            GB_mergesort_1 (Suc fuel) basecase m A_0 W_0 n = Some (GB_qsort_1a m A_0 n) \<and>
            (\<exists>m'. GB_qsort_1a m A_0 n = Inr m' \<and> m' (fst W_0) = m (fst W_0) \<and>
                   slice m' A_0 n = sort64 (slice m A_0 n))) \<and>
         (basecase < n \<longrightarrow>
            GB_mergesort_1 (Suc fuel) basecase m A_0 W_0 n =
              GB_mergesort_1_quarters (GB_mergesort_1 fuel basecase)
                (GB_merge_select_1 fuel basecase) m A_0 W_0 n \<and>
            (\<exists>m'. GB_mergesort_1 (Suc fuel) basecase m A_0 W_0 n = Some (Inr m') \<and>
                   slice m' A_0 n = sort64 (slice m A_0 n) \<and>
                   slice m' W_0 (n div 2) = sort64 (slice m A_0 (n div 2)) \<and>
                   slice m' (ptr_add W_0 (n div 2)) (n - n div 2) =
                     sort64 (slice m (ptr_add A_0 (n div 2)) (n - n div 2))))"
proof (intro conjI impI)
  assume "n \<le> basecase"
  then show "GB_mergesort_1 (Suc fuel) basecase m A_0 W_0 n = Some (GB_qsort_1a m A_0 n)"
    by simp
  have "GB_qsort_1a m A_0 n = Inr (put m A_0 (sort64 (slice m A_0 n)))"
    using assms(3) by (rule GB_qsort_1a_run)
  moreover have "put m A_0 (sort64 (slice m A_0 n)) (fst W_0) = m (fst W_0)"
    using assms(2) by simp
  moreover have "slice (put m A_0 (sort64 (slice m A_0 n))) A_0 n = sort64 (slice m A_0 n)"
    using sorted_result [OF assms(2,3), of "[]"] by simp
  ultimately show "\<exists>m'. GB_qsort_1a m A_0 n = Inr m' \<and> m' (fst W_0) = m (fst W_0) \<and>
                   slice m' A_0 n = sort64 (slice m A_0 n)"
    by simp
next
  assume big: "basecase < n"
  then show unf: "GB_mergesort_1 (Suc fuel) basecase m A_0 W_0 n =
      GB_mergesort_1_quarters (GB_mergesort_1 fuel basecase)
        (GB_merge_select_1 fuel basecase) m A_0 W_0 n"
    by simp
  from valid_bounds(2) [OF assms(3)] have n0: "0 \<le> n" .
  let ?n12 = "n div 2"
  let ?s = "sort64 (slice m A_0 n)"
  let ?h12 = "sort64 (slice m A_0 ?n12)"
  let ?h34 = "sort64 (slice m (ptr_add A_0 ?n12) (n - ?n12))"
  let ?m' = "put (put m A_0 ?s) W_0 (?h12 @ ?h34)"
  have sort: "\<exists>ws. length ws = nat k \<and>
        GB_mergesort_1 fuel basecase m' A' W' k =
          Some (Inr (put (put m' A' (sort64 (slice m' A' k))) W' ws))"
    if "fst A' \<noteq> fst W'" "valid m' A' k" "valid m' W' k" "k < n"
    for m' :: "'r memory" and A' W' k
    using assms(1) that(1-3) by (rule GB_mergesort_1_run) (use that(4) assms(5) in linarith)
  have merge: "GB_merge_select_1 fuel basecase m' S L nl R nr =
        Some (Inr (put m' S (sort64 (slice m' L nl @ slice m' R nr))))"
    if "mergeable m' S L nl R nr" "nl + nr \<le> n" for m' :: "'r memory" and S L nl R nr
    using assms(1) that(1) by (rule GB_merge_select_1_run) (use that(2) assms(5) in linarith)
  have n2: "2 \<le> n" using big assms(1) by linarith
  have "GB_mergesort_1_quarters (GB_mergesort_1 fuel basecase)
          (GB_merge_select_1 fuel basecase) m A_0 W_0 n = Some (Inr ?m')"
    using sort merge assms(2,3,4) n2 by (rule GB_mergesort_1_quarters_run)
  then have run: "GB_mergesort_1 (Suc fuel) basecase m A_0 W_0 n = Some (Inr ?m')"
    by (simp only: unf)
  have h: "0 \<le> ?n12" "?n12 \<le> n" using n0 by simp_all
  have vh: "valid m A_0 ?n12" "valid m (ptr_add A_0 ?n12) (n - ?n12)"
    using assms(3) h by (simp_all add: valid_def)
  have lh: "int (length ?h12) = ?n12" "int (length ?h34) = n - ?n12"
    using vh h by (simp_all add: length_slice)
  have ls: "int (length ?s) = n" using assms(3) n0 by (simp add: length_slice)
  have vA: "valid m A_0 (int (length ?s))" using assms(3) by (simp only: ls)
  have vW: "valid (put m A_0 ?s) W_0 (int (length (?h12 @ ?h34)))"
    using assms(4) lh by (simp add: valid_put [OF vA])
  have rA: "slice ?m' A_0 n = ?s"
    using assms(2,3) by (rule sorted_result)
  have z: "ptr_add W_0 (int (length ([] :: int64 list))) = W_0" by simp
  have "valid (put m A_0 ?s) W_0 (int (length ([] @ ?h12 @ ?h34)))" using vW by simp
  from slice_put_window [OF this] have rW1: "slice ?m' W_0 ?n12 = ?h12"
    by (simp only: append_Nil z lh(1))
  have "valid (put m A_0 ?s) W_0 (int (length (?h12 @ ?h34 @ [])))" using vW by simp
  from slice_put_window [OF this] have rW2: "slice ?m' (ptr_add W_0 ?n12) (n - ?n12) = ?h34"
    by (simp only: append_Nil2 lh)
  show "\<exists>m'. GB_mergesort_1 (Suc fuel) basecase m A_0 W_0 n = Some (Inr m') \<and>
          slice m' A_0 n = sort64 (slice m A_0 n) \<and>
          slice m' W_0 (n div 2) = sort64 (slice m A_0 (n div 2)) \<and>
          slice m' (ptr_add W_0 (n div 2)) (n - n div 2) =
            sort64 (slice m (ptr_add A_0 (n div 2)) (n - n div 2))"
    using run rA rW1 rW2 by blast
qed

theorem GB_mergesort_1_cases_witness:
  "valid (\<lambda>r::nat. if r = 0 then [4, 3, 2, 1] else [0, 0, 0, 0]) (0, 0) 4 \<and>
   valid (\<lambda>r::nat. if r = 0 then [4, 3, 2, 1] else [0, 0, 0, 0]) (1, 0) 4 \<and>
   GB_mergesort_1 (Suc 5) 4 (\<lambda>r::nat. if r = 0 then [4, 3, 2, 1] else [0, 0, 0, 0]) (0, 0) (1, 0) 4 =
     Some (GB_qsort_1a (\<lambda>r::nat. if r = 0 then [4, 3, 2, 1] else [0, 0, 0, 0]) (0, 0) 4) \<and>
   GB_mergesort_1 (Suc 5) 3 (\<lambda>r::nat. if r = 0 then [4, 3, 2, 1] else [0, 0, 0, 0]) (0, 0) (1, 0) 4 =
     GB_mergesort_1_quarters (GB_mergesort_1 5 3) (GB_merge_select_1 5 3)
       (\<lambda>r::nat. if r = 0 then [4, 3, 2, 1] else [0, 0, 0, 0]) (0, 0) (1, 0) 4 \<and>
   (case GB_mergesort_1 (Suc 5) 3 (\<lambda>r::nat. if r = 0 then [4, 3, 2, 1] else [0, 0, 0, 0])
           (0, 0) (1, 0) 4 of
      Some (Inr m') \<Rightarrow> (m' 0, m' 1) | _ \<Rightarrow> ([], [])) = ([1, 2, 3, 4], [3, 4, 1, 2])"
proof -
  let ?m = "\<lambda>r::nat. if r = 0 then [4, 3, 2, 1] else [0, 0, 0, 0 :: int64]"
  have v: "valid ?m (0, 0) 4" "valid ?m (1, 0) 4"
    by (simp_all add: valid_def)
  have r: "(case GB_mergesort_1 (Suc 5) 3 ?m (0, 0) (1, 0) 4 of
      Some (Inr m') \<Rightarrow> (m' 0, m' 1) | _ \<Rightarrow> ([], [])) = ([1, 2, 3, 4], [3, 4, 1, 2])"
    by code_simp
  from GB_mergesort_1_cases [of 4 "(0, 0)" "(1, 0)" ?m 4 5]
    GB_mergesort_1_cases [of 3 "(0, 0)" "(1, 0)" ?m 4 5] v r
  show ?thesis by simp
qed

end
